theory Spec2Isabelle
  imports Main "HOL-Library.Char_ord" "HOL-Library.List_Lexorder"
begin

section \<open>Go strings as byte lists\<close>

text \<open>
  A Go string is a sequence of bytes; \<^typ>\<open>string\<close> (a list of 8-bit \<^typ>\<open>char\<close>) is
  the same thing.  The functions of package \<^verbatim>\<open>strings\<close> and \<^verbatim>\<open>path\<close> that the
  program calls are written out here.  Indices that Go returns as \<^verbatim>\<open>-1\<close> are \<open>None\<close>.
\<close>

definition byte :: "char \<Rightarrow> nat" where
  "byte c = of_char c"

definition HasPrefix :: "string \<Rightarrow> string \<Rightarrow> bool" where
  "HasPrefix s p = (take (length p) s = p)"

definition HasSuffix :: "string \<Rightarrow> string \<Rightarrow> bool" where
  "HasSuffix s p = (length p \<le> length s \<and> drop (length s - length p) s = p)"

definition TrimPrefix :: "string \<Rightarrow> string \<Rightarrow> string" where
  "TrimPrefix s p = (if HasPrefix s p then drop (length p) s else s)"

fun Index :: "string \<Rightarrow> string \<Rightarrow> nat option" where
  "Index [] sub = (if sub = [] then Some 0 else None)"
| "Index (c # r) sub =
     (if HasPrefix (c # r) sub then Some 0 else map_option Suc (Index r sub))"

definition LastIndex :: "string \<Rightarrow> string \<Rightarrow> nat option" where
  "LastIndex s sub =
     (case filter (\<lambda>i. HasPrefix (drop i s) sub) (rev [0..<Suc (length s)]) of
        [] \<Rightarrow> None
      | i # _ \<Rightarrow> Some i)"

definition Contains :: "string \<Rightarrow> string \<Rightarrow> bool" where
  "Contains s sub = (Index s sub \<noteq> None)"

definition Cut :: "string \<Rightarrow> string \<Rightarrow> string \<times> string \<times> bool" where
  "Cut s sep =
     (case Index s sep of
        None \<Rightarrow> (s, [], False)
      | Some i \<Rightarrow> (take i s, drop (i + length sep) s, True))"

text \<open>\<^verbatim>\<open>strings.Count\<close> and \<^verbatim>\<open>strings.Split\<close> are only called with a one-byte separator.\<close>

definition CountByte :: "string \<Rightarrow> char \<Rightarrow> nat" where
  "CountByte s c = length (filter (\<lambda>x. x = c) s)"

fun Split :: "string \<Rightarrow> char \<Rightarrow> string list" where
  "Split [] sep = [[]]"
| "Split (c # r) sep =
     (if c = sep then [] # Split r sep
      else (case Split r sep of
              [] \<Rightarrow> [[c]]
            | p # ps \<Rightarrow> (c # p) # ps))"

definition Trim :: "string \<Rightarrow> string \<Rightarrow> string" where
  "Trim s cutset =
     rev (dropWhile (\<lambda>c. c \<in> set cutset) (rev (dropWhile (\<lambda>c. c \<in> set cutset) s)))"

definition isUpper :: "char \<Rightarrow> bool" where
  "isUpper c = (CHR ''A'' \<le> c \<and> c \<le> CHR ''Z'')"

definition isLower :: "char \<Rightarrow> bool" where
  "isLower c = (CHR ''a'' \<le> c \<and> c \<le> CHR ''z'')"

definition isDigit :: "char \<Rightarrow> bool" where
  "isDigit c = (CHR ''0'' \<le> c \<and> c \<le> CHR ''9'')"

definition isASCII :: "string \<Rightarrow> bool" where
  "isASCII s = list_all (\<lambda>c. byte c < 128) s"

text \<open>
  \<^verbatim>\<open>strings.ToLower\<close>: a string of ASCII bytes has its letters \<open>A\<close>..\<open>Z\<close> lowered.
  A string with a byte from \<open>0x80\<close> on is mapped rune by rune through the Unicode tables
  (\<^verbatim>\<open>strings.Map(unicode.ToLower, s)\<close>); that map is the parameter \<open>ul\<close>.
\<close>

definition lowerByte :: "char \<Rightarrow> char" where
  "lowerByte c = (if isUpper c then char_of (byte c + 32) else c)"

definition ToLower :: "(string \<Rightarrow> string) \<Rightarrow> string \<Rightarrow> string" where
  "ToLower ul s = (if isASCII s then map lowerByte s else ul s)"

text \<open>\<^verbatim>\<open>path.Base\<close>: the last element of a slash-separated path.\<close>

definition stripTrailingSlashes :: "string \<Rightarrow> string" where
  "stripTrailingSlashes p = rev (dropWhile (\<lambda>c. c = CHR ''/'') (rev p))"

definition path_Base :: "string \<Rightarrow> string" where
  "path_Base p =
     (if p = [] then ''.''
      else let p1 = stripTrailingSlashes p;
               p2 = (case LastIndex p1 ''/'' of None \<Rightarrow> p1 | Some i \<Rightarrow> drop (Suc i) p1)
           in if p2 = [] then ''/'' else p2)"

section \<open>Package net/url (Go 1.21): escaping\<close>

text \<open>
  \<^verbatim>\<open>canonicalYouTube\<close> is built from \<^verbatim>\<open>url.Parse\<close>, \<^verbatim>\<open>(*URL).Query\<close>,
  \<^verbatim>\<open>url.Values\<close> and \<^verbatim>\<open>(*URL).String\<close> of Go's standard library.  They are written
  out here function by function, under the library's own names, as they are in Go 1.21
  (the version of the repository's Docker build).
\<close>

datatype encoding =
    encodePath | encodePathSegment | encodeHost | encodeZone
  | encodeUserPassword | encodeQueryComponent | encodeFragment

datatype url_error =
    InvalidControlCharacter
  | MissingProtocolScheme
  | FirstPathSegmentColon
  | MissingBracketInHost
  | InvalidPort string
  | EscapeError string
  | InvalidHostError string
  | InvalidUserinfo

definition shouldEscape :: "char \<Rightarrow> encoding \<Rightarrow> bool" where
  "shouldEscape c mode =
     (if isLower c \<or> isUpper c \<or> isDigit c then False
      else if (mode = encodeHost \<or> mode = encodeZone) \<and> c \<in> set ''!$&'()*+,;=:[]<>\"'' then False
      else if c \<in> set ''-_.~'' then False
      else if c \<in> set ''$&+,/:;=?@'' \<and> mode = encodePath then c = CHR ''?''
      else if c \<in> set ''$&+,/:;=?@'' \<and> mode = encodePathSegment then c \<in> set ''/;,?''
      else if c \<in> set ''$&+,/:;=?@'' \<and> mode = encodeUserPassword then c \<in> set ''@/?:''
      else if c \<in> set ''$&+,/:;=?@'' \<and> mode = encodeQueryComponent then True
      else if c \<in> set ''$&+,/:;=?@'' \<and> mode = encodeFragment then False
      else if mode = encodeFragment \<and> c \<in> set ''!()*'' then False
      else True)"

definition ishex :: "char \<Rightarrow> bool" where
  "ishex c = (isDigit c \<or> (CHR ''a'' \<le> c \<and> c \<le> CHR ''f'') \<or> (CHR ''A'' \<le> c \<and> c \<le> CHR ''F''))"

definition unhex :: "char \<Rightarrow> nat" where
  "unhex c =
     (if isDigit c then byte c - byte CHR ''0''
      else if CHR ''a'' \<le> c \<and> c \<le> CHR ''f'' then byte c - byte CHR ''a'' + 10
      else if CHR ''A'' \<le> c \<and> c \<le> CHR ''F'' then byte c - byte CHR ''A'' + 10
      else 0)"

definition upperhex :: string where
  "upperhex = ''0123456789ABCDEF''"

text \<open>
  \<^verbatim>\<open>unescape\<close> makes two passes: the first checks the string and returns the error, the
  second builds the result.  (The shortcut that returns \<open>s\<close> itself when there is nothing
  to replace gives the same string as the second pass.  The second pass only runs on a
  string the first has accepted, where every \<open>%\<close> is followed by two more bytes.)
\<close>

fun unescape_check :: "encoding \<Rightarrow> string \<Rightarrow> url_error option" where
  "unescape_check mode [] = None"
| "unescape_check mode (c # s) =
     (if c = CHR ''%'' then
        (case s of
           h1 # h2 # rest \<Rightarrow>
             if \<not> ishex h1 \<or> \<not> ishex h2 then Some (EscapeError [c, h1, h2])
             else if mode = encodeHost \<and> unhex h1 < 8 \<and> [c, h1, h2] \<noteq> ''%25''
               then Some (EscapeError [c, h1, h2])
             else if mode = encodeZone \<and> [c, h1, h2] \<noteq> ''%25''
                     \<and> char_of (unhex h1 * 16 + unhex h2) \<noteq> CHR '' ''
                     \<and> shouldEscape (char_of (unhex h1 * 16 + unhex h2)) encodeHost
               then Some (EscapeError [c, h1, h2])
             else unescape_check mode rest
         | _ \<Rightarrow> Some (EscapeError (c # s)))
      else if c = CHR ''+'' then unescape_check mode s
      else if (mode = encodeHost \<or> mode = encodeZone) \<and> byte c < 128 \<and> shouldEscape c encodeHost
        then Some (InvalidHostError [c])
      else unescape_check mode s)"

fun unescape_build :: "encoding \<Rightarrow> string \<Rightarrow> string" where
  "unescape_build mode [] = []"
| "unescape_build mode (c # s) =
     (if c = CHR ''%'' then
        (case s of
           h1 # h2 # rest \<Rightarrow> char_of (unhex h1 * 16 + unhex h2) # unescape_build mode rest
         | _ \<Rightarrow> [])
      else if c = CHR ''+'' then
        (if mode = encodeQueryComponent then CHR '' '' else CHR ''+'') # unescape_build mode s
      else c # unescape_build mode s)"

definition unescape :: "string \<Rightarrow> encoding \<Rightarrow> url_error + string" where
  "unescape s mode =
     (case unescape_check mode s of
        Some e \<Rightarrow> Inl e
      | None \<Rightarrow> Inr (unescape_build mode s))"

definition escapeByte :: "encoding \<Rightarrow> char \<Rightarrow> string" where
  "escapeByte mode c =
     (if c = CHR '' '' \<and> mode = encodeQueryComponent then ''+''
      else if shouldEscape c mode
        then [CHR ''%'', upperhex ! (byte c div 16), upperhex ! (byte c mod 16)]
      else [c])"

definition escape :: "string \<Rightarrow> encoding \<Rightarrow> string" where
  "escape s mode = concat (map (escapeByte mode) s)"

definition QueryEscape :: "string \<Rightarrow> string" where
  "QueryEscape s = escape s encodeQueryComponent"

definition QueryUnescape :: "string \<Rightarrow> url_error + string" where
  "QueryUnescape s = unescape s encodeQueryComponent"

fun validEncodedByte :: "encoding \<Rightarrow> char \<Rightarrow> bool" where
  "validEncodedByte mode c =
     (if c \<in> set ''!$&'()*+,;=:@'' then True
      else if c \<in> set ''[]'' then True
      else if c = CHR ''%'' then True
      else \<not> shouldEscape c mode)"

definition validEncoded :: "string \<Rightarrow> encoding \<Rightarrow> bool" where
  "validEncoded s mode = list_all (validEncodedByte mode) s"

section \<open>Package net/url (Go 1.21): parsing and printing\<close>

record Userinfo =
  username :: string
  password :: string
  passwordSet :: bool

record URL =
  Scheme :: string
  Opaque :: string
  User :: "Userinfo option"
  Host :: string
  Path :: string
  RawPath :: string
  OmitHost :: bool
  ForceQuery :: bool
  RawQuery :: string
  Fragment :: string
  RawFragment :: string

definition emptyURL :: URL where
  "emptyURL = \<lparr>Scheme = [], Opaque = [], User = None, Host = [], Path = [], RawPath = [],
                OmitHost = False, ForceQuery = False, RawQuery = [], Fragment = [],
                RawFragment = []\<rparr>"

definition stringContainsCTLByte :: "string \<Rightarrow> bool" where
  "stringContainsCTLByte s = list_ex (\<lambda>c. byte c < 32 \<or> byte c = 127) s"

fun getScheme_from :: "string \<Rightarrow> nat \<Rightarrow> string \<Rightarrow> url_error + string \<times> string" where
  "getScheme_from rawURL i [] = Inr ([], rawURL)"
| "getScheme_from rawURL i (c # cs) =
     (if isLower c \<or> isUpper c then getScheme_from rawURL (Suc i) cs
      else if isDigit c \<or> c = CHR ''+'' \<or> c = CHR ''-'' \<or> c = CHR ''.'' then
        (if i = 0 then Inr ([], rawURL) else getScheme_from rawURL (Suc i) cs)
      else if c = CHR '':'' then
        (if i = 0 then Inl MissingProtocolScheme
         else Inr (take i rawURL, drop (Suc i) rawURL))
      else Inr ([], rawURL))"

definition getScheme :: "string \<Rightarrow> url_error + string \<times> string" where
  "getScheme rawURL = getScheme_from rawURL 0 rawURL"

definition validOptionalPort :: "string \<Rightarrow> bool" where
  "validOptionalPort port =
     (case port of
        [] \<Rightarrow> True
      | c # ds \<Rightarrow> if c \<noteq> CHR '':'' then False else list_all isDigit ds)"

definition validUserinfo :: "string \<Rightarrow> bool" where
  "validUserinfo s =
     list_all (\<lambda>r. isUpper r \<or> isLower r \<or> isDigit r \<or> r \<in> set ''-._:~!$&'()*+,;=%@'') s"

definition parseHost :: "string \<Rightarrow> url_error + string" where
  "parseHost host =
     (if HasPrefix host ''['' then
        (case LastIndex host '']'' of
           None \<Rightarrow> Inl MissingBracketInHost
         | Some i \<Rightarrow>
             if \<not> validOptionalPort (drop (Suc i) host) then Inl (InvalidPort (drop (Suc i) host))
             else (case Index (take i host) ''%25'' of
                     Some zone \<Rightarrow>
                       (case unescape (take zone host) encodeHost of
                          Inl e \<Rightarrow> Inl e
                        | Inr host1 \<Rightarrow>
                            (case unescape (drop zone (take i host)) encodeZone of
                               Inl e \<Rightarrow> Inl e
                             | Inr host2 \<Rightarrow>
                                 (case unescape (drop i host) encodeHost of
                                    Inl e \<Rightarrow> Inl e
                                  | Inr host3 \<Rightarrow> Inr (host1 @ host2 @ host3))))
                   | None \<Rightarrow> unescape host encodeHost))
      else
        (case LastIndex host '':'' of
           Some i \<Rightarrow>
             if \<not> validOptionalPort (drop i host) then Inl (InvalidPort (drop i host))
             else unescape host encodeHost
         | None \<Rightarrow> unescape host encodeHost))"

definition parseUserinfo :: "string \<Rightarrow> url_error + Userinfo" where
  "parseUserinfo userinfo =
     (if \<not> validUserinfo userinfo then Inl InvalidUserinfo
      else if \<not> Contains userinfo '':'' then
        (case unescape userinfo encodeUserPassword of
           Inl e \<Rightarrow> Inl e
         | Inr u \<Rightarrow> Inr \<lparr>username = u, password = [], passwordSet = False\<rparr>)
      else
        (case Cut userinfo '':'' of
           (uname, pw, _) \<Rightarrow>
             (case unescape uname encodeUserPassword of
                Inl e \<Rightarrow> Inl e
              | Inr u \<Rightarrow>
                  (case unescape pw encodeUserPassword of
                     Inl e \<Rightarrow> Inl e
                   | Inr p \<Rightarrow> Inr \<lparr>username = u, password = p, passwordSet = True\<rparr>))))"

definition parseAuthority :: "string \<Rightarrow> url_error + Userinfo option \<times> string" where
  "parseAuthority authority =
     (case LastIndex authority ''@'' of
        None \<Rightarrow>
          (case parseHost authority of
             Inl e \<Rightarrow> Inl e
           | Inr h \<Rightarrow> Inr (None, h))
      | Some i \<Rightarrow>
          (case parseHost (drop (Suc i) authority) of
             Inl e \<Rightarrow> Inl e
           | Inr h \<Rightarrow>
               (case parseUserinfo (take i authority) of
                  Inl e \<Rightarrow> Inl e
                | Inr ui \<Rightarrow> Inr (Some ui, h))))"

definition setPath :: "URL \<Rightarrow> string \<Rightarrow> url_error + URL" where
  "setPath u p =
     (case unescape p encodePath of
        Inl e \<Rightarrow> Inl e
      | Inr pth \<Rightarrow>
          Inr (u\<lparr>Path := pth, RawPath := (if p = escape pth encodePath then [] else p)\<rparr>))"

definition setFragment :: "URL \<Rightarrow> string \<Rightarrow> url_error + URL" where
  "setFragment u f =
     (case unescape f encodeFragment of
        Inl e \<Rightarrow> Inl e
      | Inr frag \<Rightarrow>
          Inr (u\<lparr>Fragment := frag,
                 RawFragment := (if f = escape frag encodeFragment then [] else f)\<rparr>))"

text \<open>
  \<^verbatim>\<open>parse(rawURL, viaRequest = false)\<close>.  \<open>parse_rest\<close> is the part after the scheme and
  the query have been split off.
\<close>

definition parse_rest :: "URL \<Rightarrow> string \<Rightarrow> url_error + URL" where
  "parse_rest u rest =
     (if \<not> HasPrefix rest ''/'' \<and> Scheme u \<noteq> [] then Inr (u\<lparr>Opaque := rest\<rparr>)
      else if \<not> HasPrefix rest ''/'' \<and> Contains (fst (Cut rest ''/'')) '':''
        then Inl FirstPathSegmentColon
      else if (Scheme u \<noteq> [] \<or> \<not> HasPrefix rest ''///'') \<and> HasPrefix rest ''//'' then
        (let a = drop 2 rest;
             authority = (case Index a ''/'' of None \<Rightarrow> a | Some i \<Rightarrow> take i a);
             rest' = (case Index a ''/'' of None \<Rightarrow> [] | Some i \<Rightarrow> drop i a)
         in case parseAuthority authority of
              Inl e \<Rightarrow> Inl e
            | Inr (usr, h) \<Rightarrow> setPath (u\<lparr>User := usr, Host := h\<rparr>) rest')
      else if Scheme u \<noteq> [] \<and> HasPrefix rest ''/'' then setPath (u\<lparr>OmitHost := True\<rparr>) rest
      else setPath u rest)"

definition parse :: "string \<Rightarrow> url_error + URL" where
  "parse rawURL =
     (if stringContainsCTLByte rawURL then Inl InvalidControlCharacter
      else if rawURL = ''*'' then Inr (emptyURL\<lparr>Path := ''*''\<rparr>)
      else
        (case getScheme rawURL of
           Inl e \<Rightarrow> Inl e
         | Inr (scheme, rest) \<Rightarrow>
             (let u = emptyURL\<lparr>Scheme := ToLower (\<lambda>s. s) scheme\<rparr>
              in if HasSuffix rest ''?'' \<and> CountByte rest CHR ''?'' = 1
                 then parse_rest (u\<lparr>ForceQuery := True\<rparr>) (butlast rest)
                 else (case Cut rest ''?'' of
                         (rest', q, _) \<Rightarrow> parse_rest (u\<lparr>RawQuery := q\<rparr>) rest'))))"

definition url_Parse :: "string \<Rightarrow> url_error + URL" where
  "url_Parse rawURL =
     (case Cut rawURL ''#'' of
        (u, frag, _) \<Rightarrow>
          (case parse u of
             Inl e \<Rightarrow> Inl e
           | Inr url \<Rightarrow> if frag = [] then Inr url else setFragment url frag))"

definition EscapedPath :: "URL \<Rightarrow> string" where
  "EscapedPath u =
     (if RawPath u \<noteq> [] \<and> validEncoded (RawPath u) encodePath
         \<and> unescape (RawPath u) encodePath = Inr (Path u)
      then RawPath u
      else if Path u = ''*'' then ''*''
      else escape (Path u) encodePath)"

definition EscapedFragment :: "URL \<Rightarrow> string" where
  "EscapedFragment u =
     (if RawFragment u \<noteq> [] \<and> validEncoded (RawFragment u) encodeFragment
         \<and> unescape (RawFragment u) encodeFragment = Inr (Fragment u)
      then RawFragment u
      else escape (Fragment u) encodeFragment)"

definition Userinfo_String :: "Userinfo \<Rightarrow> string" where
  "Userinfo_String ui =
     escape (username ui) encodeUserPassword
       @ (if passwordSet ui then '':'' @ escape (password ui) encodeUserPassword else [])"

text \<open>\<^verbatim>\<open>(*URL).String\<close>, piece by piece as the string builder receives them.\<close>

definition String_authority :: "URL \<Rightarrow> string" where
  "String_authority u =
     (if Scheme u \<noteq> [] \<or> Host u \<noteq> [] \<or> User u \<noteq> None then
        (if OmitHost u \<and> Host u = [] \<and> User u = None then []
         else (if Host u \<noteq> [] \<or> Path u \<noteq> [] \<or> User u \<noteq> None then ''//'' else [])
              @ (case User u of None \<Rightarrow> [] | Some ui \<Rightarrow> Userinfo_String ui @ ''@'')
              @ (if Host u \<noteq> [] then escape (Host u) encodeHost else []))
      else [])"

definition String_path :: "URL \<Rightarrow> string \<Rightarrow> string" where
  "String_path u buf =
     (let p = EscapedPath u;
          buf1 = (if p \<noteq> [] \<and> hd p \<noteq> CHR ''/'' \<and> Host u \<noteq> [] then buf @ ''/'' else buf);
          buf2 = (if buf1 = [] \<and> Contains (fst (Cut p ''/'')) '':'' then buf1 @ ''./'' else buf1)
      in buf2 @ p)"

definition URL_String :: "URL \<Rightarrow> string" where
  "URL_String u =
     (let buf0 = (if Scheme u \<noteq> [] then Scheme u @ '':'' else []);
          buf1 = (if Opaque u \<noteq> [] then buf0 @ Opaque u
                  else String_path u (buf0 @ String_authority u));
          buf2 = (if ForceQuery u \<or> RawQuery u \<noteq> [] then buf1 @ ''?'' @ RawQuery u else buf1)
      in if Fragment u \<noteq> [] then buf2 @ ''#'' @ EscapedFragment u else buf2)"

section \<open>Package net/url: query values\<close>

text \<open>
  \<^verbatim>\<open>url.Values\<close> is a \<^verbatim>\<open>map[string][]string\<close>; it is an association list with one
  entry per key here, since \<^verbatim>\<open>Encode\<close> enumerates the keys (in sorted order).
\<close>

type_synonym Values = "(string \<times> string list) list"

fun Values_put :: "Values \<Rightarrow> string \<Rightarrow> string list \<Rightarrow> Values" where
  "Values_put [] key vs = [(key, vs)]"
| "Values_put ((k, old) # m) key vs =
     (if k = key then (k, vs) # m else (k, old) # Values_put m key vs)"

definition Values_lookup :: "Values \<Rightarrow> string \<Rightarrow> string list" where
  "Values_lookup m key = (case map_of m key of None \<Rightarrow> [] | Some vs \<Rightarrow> vs)"

definition Values_Get :: "Values \<Rightarrow> string \<Rightarrow> string" where
  "Values_Get m key = (case Values_lookup m key of [] \<Rightarrow> [] | v # _ \<Rightarrow> v)"

definition Values_Set :: "Values \<Rightarrow> string \<Rightarrow> string \<Rightarrow> Values" where
  "Values_Set m key v = Values_put m key [v]"

definition Values_append :: "Values \<Rightarrow> string \<Rightarrow> string \<Rightarrow> Values" where
  "Values_append m key v = Values_put m key (Values_lookup m key @ [v])"

definition Values_Encode :: "Values \<Rightarrow> string" where
  "Values_Encode m =
     foldl (\<lambda>buf (k, v). (if buf \<noteq> [] then buf @ ''&'' else buf)
                            @ QueryEscape k @ ''='' @ QueryEscape v)
       []
       (concat (map (\<lambda>k. map (\<lambda>v. (k, v)) (Values_lookup m k)) (sort (map fst m))))"

text \<open>
  \<^verbatim>\<open>parseQuery\<close>: one pass of the loop per \<open>&\<close>-separated piece.  \<^verbatim>\<open>(*URL).Query\<close>
  drops the error that \<^verbatim>\<open>ParseQuery\<close> reports and keeps the values parsed.
\<close>

function parseQuery :: "Values \<Rightarrow> string \<Rightarrow> Values" where
  "parseQuery m query =
     (if query = [] then m
      else
        (case Cut query ''&'' of
           (key, query', _) \<Rightarrow>
             if Contains key '';'' then parseQuery m query'
             else if key = [] then parseQuery m query'
             else
               (case Cut key ''='' of
                  (k, v, _) \<Rightarrow>
                    (case QueryUnescape k of
                       Inl e \<Rightarrow> parseQuery m query'
                     | Inr k' \<Rightarrow>
                         (case QueryUnescape v of
                            Inl e \<Rightarrow> parseQuery m query'
                          | Inr v' \<Rightarrow> parseQuery (Values_append m k' v') query')))))"
  by pat_completeness auto

termination
  by (relation "measure (\<lambda>(m, q). length q)") (auto simp: Cut_def split: option.splits)

declare parseQuery.simps [simp del]

definition URL_Query :: "URL \<Rightarrow> Values" where
  "URL_Query u = parseQuery [] (RawQuery u)"

section \<open>canonicalYouTube\<close>

text \<open>
  The URL literal that every successful branch of \<^verbatim>\<open>canonicalYouTube\<close> prints:
  \<^verbatim>\<open>(&url.URL{Scheme: "https", Host: "www.youtube.com", Path: "/watch", RawQuery: q.Encode()}).String()\<close>.
\<close>

definition watchURL :: "Values \<Rightarrow> string" where
  "watchURL q =
     URL_String (emptyURL\<lparr>Scheme := ''https'', Host := ''www.youtube.com'',
                          Path := ''/watch'', RawQuery := Values_Encode q\<rparr>)"

definition withTime :: "Values \<Rightarrow> string \<Rightarrow> Values" where
  "withTime q t = (if t \<noteq> [] then Values_Set q ''t'' t else q)"

definition canonicalYouTube :: "(string \<Rightarrow> string) \<Rightarrow> string \<Rightarrow> string \<times> bool" where
  "canonicalYouTube ul raw =
     (case url_Parse raw of
        Inl err \<Rightarrow> ([], False)
      | Inr parsed \<Rightarrow>
          let host = ToLower ul (Host parsed) in
          if host = ''youtu.be'' then
            (let id = TrimPrefix (Path parsed) ''/'' in
             if id = [] then ([], False)
             else
               let t = Values_Get (URL_Query parsed) ''t'';
                   q = Values_Set [] ''v'' id
               in (watchURL (withTime q t), True))
          else if HasSuffix host ''youtube.com'' \<or> HasSuffix host ''youtube-nocookie.com''
                  \<or> HasSuffix host ''m.youtube.com'' then
            (let parts = Split (Trim (Path parsed) ''/'') CHR ''/'' in
             if length parts \<ge> 2 \<and> (parts ! 0 = ''shorts'' \<or> parts ! 0 = ''live'')
                \<and> parts ! 1 \<noteq> [] then
               (let q = Values_Set [] ''v'' (parts ! 1);
                    t = Values_Get (URL_Query parsed) ''t''
                in (watchURL (withTime q t), True))
             else if HasPrefix (Path parsed) ''/watch'' then
               (let q = URL_Query parsed;
                    id = Values_Get q ''v''
                in if id = [] then ([], False)
                   else
                     let only = Values_Set [] ''v'' id
                     in (watchURL (withTime only (Values_Get q ''t'')), True))
             else if HasPrefix (Path parsed) ''/embed/'' \<and> path_Base (Path parsed) \<noteq> [] then
               (let q = Values_Set [] ''v'' (path_Base (Path parsed));
                    t = Values_Get (URL_Query parsed) ''start''
                in (watchURL (if t \<noteq> [] then Values_Set q ''t'' (t @ ''s'') else q), True))
             else ([], False))
          else ([], False))"

section \<open>resolveHTTP and resolveYouTubeURL\<close>

text \<open>
  The network is the environment of \<^verbatim>\<open>resolveHTTP\<close>: \<open>client_Do env i m u\<close> is what
  \<^verbatim>\<open>client.Do\<close> answers in pass \<open>i\<close> of the loop to a request with method \<open>m\<close> for \<open>u\<close>,
  either a transport error or a response (status code and \<^verbatim>\<open>Location\<close> header, empty when
  absent).  \<open>resolve_ref env base next\<close> stands for
  \<^verbatim>\<open>base.ResolveReference(next).String()\<close> of net/url.  \<^verbatim>\<open>http.NewRequest\<close> fails
  exactly when \<^verbatim>\<open>url.Parse\<close> rejects the URL.  The requests sent are returned as a log.
\<close>

datatype http_method = HEAD | GET

record response =
  StatusCode :: int
  Location :: string

record net =
  client_Do :: "int \<Rightarrow> http_method \<Rightarrow> string \<Rightarrow> string + response"
  resolve_ref :: "URL \<Rightarrow> URL \<Rightarrow> string"

datatype http_error =
    ParseError url_error
  | TransportError string
  | RedirectWithoutLocation
  | TooManyRedirects int

type_synonym request = "http_method \<times> string"

text \<open>One probe: HEAD first, GET when HEAD fails.\<close>

definition probe :: "net \<Rightarrow> int \<Rightarrow> string \<Rightarrow> (string + response) \<times> request list" where
  "probe env i u =
     (case client_Do env i HEAD u of
        Inr resp \<Rightarrow> (Inr resp, [(HEAD, u)])
      | Inl err \<Rightarrow> (client_Do env i GET u, [(HEAD, u), (GET, u)]))"

text \<open>
  The loop \<^verbatim>\<open>for i := 0; i < maxHops; i++\<close>.  Go's \<^verbatim>\<open>StatusCode/100 == 3\<close> truncates
  towards zero and \<open>div\<close> rounds down; both are \<open>3\<close> exactly for \<open>300..399\<close>.
\<close>

function resolveHTTP_loop ::
  "net \<Rightarrow> int \<Rightarrow> int \<Rightarrow> string \<Rightarrow> request list \<Rightarrow> (string \<times> http_error option) \<times> request list"
where
  "resolveHTTP_loop env maxHops i u log =
     (if i < maxHops then
        (case url_Parse u of
           Inl e \<Rightarrow> (([], Some (ParseError e)), log)
         | Inr base \<Rightarrow>
             (case probe env i u of
                (Inl err, reqs) \<Rightarrow> (([], Some (TransportError err)), log @ reqs)
              | (Inr resp, reqs) \<Rightarrow>
                  if StatusCode resp div 100 = 3 then
                    (if Location resp = [] then (([], Some RedirectWithoutLocation), log @ reqs)
                     else
                       (case url_Parse (Location resp) of
                          Inl e \<Rightarrow> (([], Some (ParseError e)), log @ reqs)
                        | Inr next \<Rightarrow>
                            resolveHTTP_loop env maxHops (i + 1) (resolve_ref env base next)
                              (log @ reqs)))
                  else ((u, None), log @ reqs)))
      else (([], Some (TooManyRedirects maxHops)), log))"
  by pat_completeness auto
termination
  by (relation "measure (\<lambda>(env, maxHops, i, u, log). nat (maxHops - i))") auto

declare resolveHTTP_loop.simps [simp del]

definition resolveHTTP ::
  "net \<Rightarrow> string \<Rightarrow> int \<Rightarrow> (string \<times> http_error option) \<times> request list" where
  "resolveHTTP env start maxHops = resolveHTTP_loop env maxHops 0 start []"

definition resolveYouTubeURL ::
  "(string \<Rightarrow> string) \<Rightarrow> net \<Rightarrow> string
     \<Rightarrow> (string \<times> bool \<times> bool \<times> http_error option) \<times> request list" where
  "resolveYouTubeURL ul env input =
     (case canonicalYouTube ul input of
        (canon, True) \<Rightarrow> ((canon, False, True, None), [])
      | (_, False) \<Rightarrow>
          (case resolveHTTP env input 10 of
             ((final, Some err), log) \<Rightarrow> ((input, False, False, Some err), log)
           | ((final, None), log) \<Rightarrow>
               (case canonicalYouTube ul final of
                  (canon, True) \<Rightarrow> ((canon, final \<noteq> input, True, None), log)
                | (_, False) \<Rightarrow> ((final, final \<noteq> input, False, None), log))))"

text \<open>
  Every pass of the loop sends exactly one HEAD request, so the HEAD requests in the log
  count the passes made.
\<close>

definition probes :: "request list \<Rightarrow> nat" where
  "probes log = length (filter (\<lambda>q. fst q = HEAD) log)"

text \<open>
  \<open>follow env i u\<close> is the URL the loop goes on with when pass \<open>i\<close> on \<open>u\<close> takes the
  redirect branch down to its \<^verbatim>\<open>continue\<close>: the URL parses, the probe is answered with a
  3xx status and a \<^verbatim>\<open>Location\<close> that is there and parses.  It is \<open>None\<close> when the pass
  returns.  \<open>redirected env maxHops i u\<close> follows the redirects of the passes \<open>i\<close> up to
  \<open>maxHops\<close>: it is the URL reached when every one of them is followed, the URL the loop
  holds when it runs out of passes, and \<open>None\<close> when one of them returns.
\<close>

definition follow :: "net \<Rightarrow> int \<Rightarrow> string \<Rightarrow> string option" where
  "follow env i u =
     (case url_Parse u of
        Inl e \<Rightarrow> None
      | Inr base \<Rightarrow>
          (case fst (probe env i u) of
             Inl err \<Rightarrow> None
           | Inr resp \<Rightarrow>
               if StatusCode resp div 100 = 3 \<and> Location resp \<noteq> [] then
                 (case url_Parse (Location resp) of
                    Inl e \<Rightarrow> None
                  | Inr next \<Rightarrow> Some (resolve_ref env base next))
               else None))"

function redirected :: "net \<Rightarrow> int \<Rightarrow> int \<Rightarrow> string \<Rightarrow> string option" where
  "redirected env maxHops i u =
     (if i < maxHops then
        (case follow env i u of
           None \<Rightarrow> None
         | Some u' \<Rightarrow> redirected env maxHops (i + 1) u')
      else Some u)"
  by pat_completeness auto
termination
  by (relation "measure (\<lambda>(env, maxHops, i, u). nat (maxHops - i))") auto

declare redirected.simps [simp del]

text \<open>
  Four networks for concrete runs.  In all of them the \<^verbatim>\<open>Location\<close> headers are
  absolute URLs with nothing to clean in the path, and \<^verbatim>\<open>ResolveReference\<close> returns such
  a reference as it is.  \<open>net_down\<close> fails every request; \<open>net_bare_redirect\<close> answers
  302 with no \<^verbatim>\<open>Location\<close>; \<open>net_redirecting\<close> rejects HEAD and answers GET with a
  redirect in passes 0 and 1 and with 200 from pass 2 on; \<open>net_loop\<close> answers every
  request with a redirect.
\<close>

definition net_down :: net where
  "net_down = \<lparr>client_Do = (\<lambda>i m u. Inl ''connection refused''),
               resolve_ref = (\<lambda>base next. URL_String next)\<rparr>"

definition net_bare_redirect :: net where
  "net_bare_redirect = \<lparr>client_Do = (\<lambda>i m u. Inr \<lparr>StatusCode = 302, Location = []\<rparr>),
                        resolve_ref = (\<lambda>base next. URL_String next)\<rparr>"

definition net_loop :: net where
  "net_loop = \<lparr>client_Do = (\<lambda>i m u. Inr \<lparr>StatusCode = 301, Location = ''http://b.test/next''\<rparr>),
               resolve_ref = (\<lambda>base next. URL_String next)\<rparr>"

definition net_redirecting :: net where
  "net_redirecting =
     \<lparr>client_Do = (\<lambda>i m u.
         if m = HEAD then Inl ''method not allowed''
         else if i < 2 then Inr \<lparr>StatusCode = 302, Location = ''http://b.test/next''\<rparr>
         else Inr \<lparr>StatusCode = 200, Location = []\<rparr>),
      resolve_ref = (\<lambda>base next. URL_String next)\<rparr>"

section \<open>The progress hub\<close>

text \<open>
  The globals \<^verbatim>\<open>progressClients\<close> and \<^verbatim>\<open>completedDownloads\<close> are fields of the state
  \<open>hub\<close>.  A channel value is an address into \<open>chans\<close>, the store of all channels made so
  far; \<^verbatim>\<open>make(chan ProgressUpdate, 10)\<close> takes the next unused address.  A channel is its
  buffered queue and its closed flag.  Times are nanoseconds.
\<close>

record ProgressUpdate =
  Progress :: int
  Status :: string
  Error :: bool

record CompletedDownload =
  FinalUpdate :: ProgressUpdate
  CompletedAt :: int

type_synonym chan_id = nat

record chan =
  queue :: "ProgressUpdate list"
  isClosed :: bool

record hub =
  progressClients :: "string \<rightharpoonup> chan_id list"
  completedDownloads :: "string \<rightharpoonup> CompletedDownload"
  chans :: "chan_id \<Rightarrow> chan"
  nextChan :: chan_id

definition chanCap :: nat where
  "chanCap = 10"

definition completedCacheTTL :: int where
  "completedCacheTTL = 5 * 60 * 1000000000"

definition hub0 :: hub where
  "hub0 = \<lparr>progressClients = Map.empty, completedDownloads = Map.empty,
           chans = (\<lambda>c. \<lparr>queue = [], isClosed = False\<rparr>), nextChan = 0\<rparr>"

datatype panic = SendOnClosedChannel | CloseOfClosedChannel

text \<open>Reading a missing key of \<^verbatim>\<open>progressClients\<close> gives the nil slice.\<close>

definition clients_of :: "hub \<Rightarrow> string \<Rightarrow> chan_id list" where
  "clients_of h sessionID = (case progressClients h sessionID of None \<Rightarrow> [] | Some cs \<Rightarrow> cs)"

text \<open>
  \<^verbatim>\<open>select { case ch <- update: default: }\<close>: a send on a closed channel panics, a send on
  a channel with room appends to its queue, and a full channel takes the default branch.
\<close>

definition trySend :: "chan_id \<Rightarrow> ProgressUpdate \<Rightarrow> hub \<Rightarrow> panic + hub" where
  "trySend ch update h =
     (if isClosed (chans h ch) then Inl SendOnClosedChannel
      else if length (queue (chans h ch)) < chanCap
        then Inr (h\<lparr>chans := (chans h)(ch := (chans h ch)\<lparr>queue := queue (chans h ch) @ [update]\<rparr>)\<rparr>)
      else Inr h)"

fun fanout :: "chan_id list \<Rightarrow> ProgressUpdate \<Rightarrow> hub \<Rightarrow> panic + hub" where
  "fanout [] update h = Inr h"
| "fanout (ch # clients) update h =
     (case trySend ch update h of
        Inl p \<Rightarrow> Inl p
      | Inr h' \<Rightarrow> fanout clients update h')"

definition closeChan :: "chan_id \<Rightarrow> hub \<Rightarrow> panic + hub" where
  "closeChan ch h =
     (if isClosed (chans h ch) then Inl CloseOfClosedChannel
      else Inr (h\<lparr>chans := (chans h)(ch := (chans h ch)\<lparr>isClosed := True\<rparr>)\<rparr>))"

fun closeAll :: "chan_id list \<Rightarrow> hub \<Rightarrow> panic + hub" where
  "closeAll [] h = Inr h"
| "closeAll (ch # clients) h =
     (case closeChan ch h of
        Inl p \<Rightarrow> Inl p
      | Inr h' \<Rightarrow> closeAll clients h')"

text \<open>Deleting the session and caching the final update, as both finalising paths do.\<close>

definition cacheFinal :: "hub \<Rightarrow> string \<Rightarrow> ProgressUpdate \<Rightarrow> int \<Rightarrow> hub" where
  "cacheFinal h sessionID update now =
     h\<lparr>progressClients := (progressClients h)(sessionID := None),
       completedDownloads :=
         (completedDownloads h)(sessionID \<mapsto> \<lparr>FinalUpdate = update, CompletedAt = now\<rparr>)\<rparr>"

text \<open>
  \<^verbatim>\<open>sendProgress\<close> has three sections: the snapshot of the clients under the read lock
  (\<open>clients_of\<close>), the sends to the channels of the snapshot with no lock held (one
  \<open>trySend\<close> per channel, \<open>fanout\<close> for all), and for progress 100 the closing section
  under the write lock (\<open>sendProgress_close\<close>).  Other goroutines can run between the
  sections and between two sends; the sections are events of their own in the next
  section.  \<open>sendProgress\<close> below is the call during which no other goroutine runs.
\<close>

definition sendProgress_close :: "hub \<Rightarrow> string \<Rightarrow> ProgressUpdate \<Rightarrow> int \<Rightarrow> panic + hub" where
  "sendProgress_close h sessionID update now =
     (case closeAll (clients_of h sessionID) h of
        Inl p \<Rightarrow> Inl p
      | Inr h' \<Rightarrow> Inr (cacheFinal h' sessionID update now))"

definition sendProgress :: "hub \<Rightarrow> string \<Rightarrow> int \<Rightarrow> string \<Rightarrow> int \<Rightarrow> panic + hub" where
  "sendProgress h sessionID progress status now =
     (let update = \<lparr>Progress = progress, Status = status, Error = False\<rparr>;
          clients = clients_of h sessionID
      in case fanout clients update h of
           Inl p \<Rightarrow> Inl p
         | Inr h' \<Rightarrow>
             if progress = 100 then sendProgress_close h' sessionID update now else Inr h')"

text \<open>\<^verbatim>\<open>sendError\<close> holds the write lock from start to end.\<close>

definition sendError :: "hub \<Rightarrow> string \<Rightarrow> string \<Rightarrow> int \<Rightarrow> panic + hub" where
  "sendError h sessionID errorMsg now =
     (let update = \<lparr>Progress = - 1, Status = errorMsg, Error = True\<rparr>;
          clients = clients_of h sessionID
      in case fanout clients update h of
           Inl p \<Rightarrow> Inl p
         | Inr h' \<Rightarrow>
             (case closeAll clients h' of
                Inl p \<Rightarrow> Inl p
              | Inr h'' \<Rightarrow> Inr (cacheFinal h'' sessionID update now)))"

text \<open>
  \<^verbatim>\<open>handleProgress\<close>: the lookup in the cache (read lock), the registration of a new
  channel (write lock), and the deferred removal (write lock).  \<open>handleProgress\<close> is the
  handler up to the point where it starts to stream, with nothing between lookup and
  registration.
\<close>

datatype subscription = BadRequest | Cached ProgressUpdate | Subscribed chan_id

definition handleProgress_lookup :: "hub \<Rightarrow> string \<Rightarrow> CompletedDownload option" where
  "handleProgress_lookup h sessionID = completedDownloads h sessionID"

definition handleProgress_register :: "hub \<Rightarrow> string \<Rightarrow> chan_id \<times> hub" where
  "handleProgress_register h sessionID =
     (let progressChan = nextChan h
      in (progressChan,
          h\<lparr>progressClients := (progressClients h)(sessionID \<mapsto> clients_of h sessionID @ [progressChan]),
            chans := (chans h)(progressChan := \<lparr>queue = [], isClosed = False\<rparr>),
            nextChan := Suc progressChan\<rparr>))"

definition handleProgress :: "hub \<Rightarrow> string \<Rightarrow> subscription \<times> hub" where
  "handleProgress h sessionID =
     (if sessionID = [] then (BadRequest, h)
      else
        (case handleProgress_lookup h sessionID of
           Some completed \<Rightarrow> (Cached (FinalUpdate completed), h)
         | None \<Rightarrow>
             (case handleProgress_register h sessionID of
                (progressChan, h') \<Rightarrow> (Subscribed progressChan, h'))))"

definition handleProgress_cleanup :: "hub \<Rightarrow> string \<Rightarrow> chan_id \<Rightarrow> panic + hub" where
  "handleProgress_cleanup h sessionID progressChan =
     (let clients = clients_of h sessionID
      in if progressChan \<in> set clients then
           (let rest = remove1 progressChan clients;
                h1 = h\<lparr>progressClients := (progressClients h)(sessionID \<mapsto> rest)\<rparr>
            in case closeChan progressChan h1 of
                 Inl p \<Rightarrow> Inl p
               | Inr h2 \<Rightarrow>
                   if rest = []
                   then Inr (h2\<lparr>progressClients := (progressClients h2)(sessionID := None)\<rparr>)
                   else Inr h2)
         else Inr h)"

text \<open>One pass of \<^verbatim>\<open>for update := range progressChan\<close>: the head of the queue is taken.\<close>

definition receive :: "hub \<Rightarrow> chan_id \<Rightarrow> ProgressUpdate option \<times> hub" where
  "receive h ch =
     (case queue (chans h ch) of
        [] \<Rightarrow> (None, h)
      | update # rest \<Rightarrow> (Some update, h\<lparr>chans := (chans h)(ch := (chans h ch)\<lparr>queue := rest\<rparr>)\<rparr>))"

text \<open>One tick of \<^verbatim>\<open>cleanupCompletedDownloads\<close>.\<close>

definition cleanupTick :: "hub \<Rightarrow> int \<Rightarrow> hub" where
  "cleanupTick h now =
     h\<lparr>completedDownloads :=
         (\<lambda>sessionID.
            case completedDownloads h sessionID of
              None \<Rightarrow> None
            | Some completed \<Rightarrow>
                if now - CompletedAt completed > completedCacheTTL then None else Some completed)\<rparr>"

section \<open>Interleavings of the hub's critical sections\<close>

text \<open>
  The handlers, the download goroutines and the cleanup goroutine run concurrently and
  meet only at \<^verbatim>\<open>progressMutex\<close>.  An event is one stretch of code that runs without
  another goroutine in between:
  \<^item> \<open>Lookup\<close>: a handler reads the cache under the read lock; when it finds nothing it
    goes on to register (it is \<open>pending\<close>);
  \<^item> \<open>Register\<close>: a pending handler registers its new channel under the write lock (it
    is \<open>streaming\<close> then);
  \<^item> \<open>Receive\<close>: a streaming handler takes one update from its channel;
  \<^item> \<open>Cleanup\<close>: a streaming handler whose channel is closed and drained has left its
    loop and runs the deferred removal;
  \<^item> \<open>Snapshot\<close>: a call of \<^verbatim>\<open>sendProgress\<close> reads the clients of its session under
    the read lock; the call is \<open>sending\<close> then, with these channels still to send to;
  \<^item> \<open>Send\<close>: a sending call makes the next pass of its loop, one non-blocking send to
    the first channel it has left, with no lock held;
  \<^item> \<open>Close\<close>: a sending call with no channel left ends, for progress 100 with the
    closing section under the write lock;
  \<^item> \<open>Publish\<close>: one call of \<^verbatim>\<open>sendProgress\<close> during which nothing else happens, that is
    \<open>Snapshot\<close>, a \<open>Send\<close> for each channel and \<open>Close\<close> in a row;
  \<^item> \<open>Fail\<close>: one call of \<^verbatim>\<open>sendError\<close>;
  \<^item> \<open>Tick\<close>: one tick of the cleanup goroutine.
  \<open>exec\<close> is \<open>None\<close> when the event cannot happen in the state, and when the code panics.
\<close>

record system =
  shared :: hub
  pending :: "string list"
  streaming :: "(string \<times> chan_id) list"
  sending :: "(string \<times> int \<times> string \<times> chan_id list) list"

definition system0 :: system where
  "system0 = \<lparr>shared = hub0, pending = [], streaming = [], sending = []\<rparr>"

datatype event =
    Lookup string
  | Register string
  | Receive string chan_id
  | Cleanup string chan_id
  | Snapshot string int string
  | Send string int string "chan_id list"
  | Close string int string int
  | Publish string int string int
  | Fail string string int
  | Tick int

definition continue_with :: "system \<Rightarrow> panic + hub \<Rightarrow> system option" where
  "continue_with s r = (case r of Inl p \<Rightarrow> None | Inr h \<Rightarrow> Some (s\<lparr>shared := h\<rparr>))"

fun exec :: "system \<Rightarrow> event \<Rightarrow> system option" where
  "exec s (Lookup sessionID) =
     (if sessionID = [] then Some s
      else
        (case handleProgress_lookup (shared s) sessionID of
           Some completed \<Rightarrow> Some s
         | None \<Rightarrow> Some (s\<lparr>pending := sessionID # pending s\<rparr>)))"
| "exec s (Register sessionID) =
     (if sessionID \<in> set (pending s) then
        (case handleProgress_register (shared s) sessionID of
           (progressChan, h) \<Rightarrow>
             Some (s\<lparr>shared := h, pending := remove1 sessionID (pending s),
                     streaming := (sessionID, progressChan) # streaming s\<rparr>))
      else None)"
| "exec s (Receive sessionID ch) =
     (if (sessionID, ch) \<in> set (streaming s) \<and> queue (chans (shared s) ch) \<noteq> []
      then Some (s\<lparr>shared := snd (receive (shared s) ch)\<rparr>)
      else None)"
| "exec s (Cleanup sessionID ch) =
     (if (sessionID, ch) \<in> set (streaming s) \<and> queue (chans (shared s) ch) = []
         \<and> isClosed (chans (shared s) ch)
      then continue_with (s\<lparr>streaming := remove1 (sessionID, ch) (streaming s)\<rparr>)
             (handleProgress_cleanup (shared s) sessionID ch)
      else None)"
| "exec s (Snapshot sessionID progress status) =
     Some (s\<lparr>sending := (sessionID, progress, status, clients_of (shared s) sessionID) # sending s\<rparr>)"
| "exec s (Send sessionID progress status clients) =
     (case clients of
        [] \<Rightarrow> None
      | ch # rest \<Rightarrow>
          if (sessionID, progress, status, clients) \<in> set (sending s) then
            continue_with
              (s\<lparr>sending := (sessionID, progress, status, rest)
                    # remove1 (sessionID, progress, status, clients) (sending s)\<rparr>)
              (trySend ch \<lparr>Progress = progress, Status = status, Error = False\<rparr> (shared s))
          else None)"
| "exec s (Close sessionID progress status now) =
     (if (sessionID, progress, status, []) \<in> set (sending s) then
        continue_with (s\<lparr>sending := remove1 (sessionID, progress, status, []) (sending s)\<rparr>)
          (if progress = 100
           then sendProgress_close (shared s) sessionID
                  \<lparr>Progress = progress, Status = status, Error = False\<rparr> now
           else Inr (shared s))
      else None)"
| "exec s (Publish sessionID progress status now) =
     continue_with s (sendProgress (shared s) sessionID progress status now)"
| "exec s (Fail sessionID errorMsg now) =
     continue_with s (sendError (shared s) sessionID errorMsg now)"
| "exec s (Tick now) = Some (s\<lparr>shared := cleanupTick (shared s) now\<rparr>)"

fun run :: "event list \<Rightarrow> system \<Rightarrow> system option" where
  "run [] s = Some s"
| "run (e # es) s = (case exec s e of None \<Rightarrow> None | Some s' \<Rightarrow> run es s')"

text \<open>The passes of the loop of a call that has the channels \<open>clients\<close> left.\<close>

fun sends :: "string \<Rightarrow> int \<Rightarrow> string \<Rightarrow> chan_id list \<Rightarrow> event list" where
  "sends sessionID progress status [] = []"
| "sends sessionID progress status (ch # rest) =
     Send sessionID progress status (ch # rest) # sends sessionID progress status rest"

text \<open>
  An event of which the cache entry a session got at time \<open>t0\<close> survives: not a second
  final update for the session, and not a tick later than the retention time allows.
\<close>

fun retains :: "string \<Rightarrow> int \<Rightarrow> event \<Rightarrow> bool" where
  "retains sessionID t0 (Publish sid progress status now) = (\<not> (sid = sessionID \<and> progress = 100))"
| "retains sessionID t0 (Close sid progress status now) = (\<not> (sid = sessionID \<and> progress = 100))"
| "retains sessionID t0 (Fail sid errorMsg now) = (sid \<noteq> sessionID)"
| "retains sessionID t0 (Tick now) = (now - t0 \<le> completedCacheTTL)"
| "retains sessionID t0 e = True"

section \<open>Canonical form\<close>

text \<open>
  The strings that \<open>canonicalYouTube\<close> returns: the query \<open>Encode\<close> prints for a video id
  and a time, after the fixed prefix; \<open>canonURL\<close> is what \<open>url_Parse\<close> makes of them.
\<close>

definition querySafe :: "char \<Rightarrow> bool" where
  "querySafe c = (isLower c \<or> isUpper c \<or> isDigit c \<or> c \<in> set ''-_.~+%'')"

definition canonQuery :: "string \<Rightarrow> string \<Rightarrow> string" where
  "canonQuery vid t =
     (if t \<noteq> [] then ''t='' @ QueryEscape t @ ''&'' else []) @ ''v='' @ QueryEscape vid"

definition canonString :: "string \<Rightarrow> string" where
  "canonString q = ''https://www.youtube.com/watch?'' @ q"

definition canonURL :: "string \<Rightarrow> URL" where
  "canonURL q = emptyURL\<lparr>Scheme := ''https'', Host := ''www.youtube.com'',
                          Path := ''/watch'', RawQuery := q\<rparr>"

section \<open>The hub: notions for stating its properties\<close>

text \<open>What the sends do to the channels, when every client is open and listed once.\<close>

definition delivered :: "chan_id list \<Rightarrow> ProgressUpdate \<Rightarrow> hub \<Rightarrow> chan_id \<Rightarrow> chan" where
  "delivered clients update h ch =
     (if ch \<in> set clients \<and> length (queue (chans h ch)) < chanCap
      then (chans h ch)\<lparr>queue := queue (chans h ch) @ [update]\<rparr>
      else chans h ch)"

text \<open>
  Two invariants of the registry.  \<open>live\<close>: the channels registered for a session are open,
  allocated, listed once, and registered for no other session.  \<open>no_both\<close>: no session
  has a registered channel and a cache entry at once.
\<close>

definition live :: "hub \<Rightarrow> bool" where
  "live h =
     ((\<forall>sid. distinct (clients_of h sid)
          \<and> list_all (\<lambda>ch. \<not> isClosed (chans h ch) \<and> ch < nextChan h) (clients_of h sid))
      \<and> (\<forall>sid sid' ch. ch \<in> set (clients_of h sid) \<longrightarrow> ch \<in> set (clients_of h sid')
            \<longrightarrow> sid = sid'))"

definition no_both :: "hub \<Rightarrow> bool" where
  "no_both h = (\<forall>sid. clients_of h sid = [] \<or> completedDownloads h sid = None)"

text \<open>
  Concrete states: the hub after session \<open>s1\<close> completed at time 0 with nobody listening,
  and a hub where \<open>s1\<close> has three subscribers, the second with a full queue.
\<close>

definition final_done :: ProgressUpdate where
  "final_done = \<lparr>Progress = 100, Status = ''done'', Error = False\<rparr>"

definition hub_done :: hub where
  "hub_done = cacheFinal hub0 ''s1'' final_done 0"

definition queued :: ProgressUpdate where
  "queued = \<lparr>Progress = 30, Status = ''loading'', Error = False\<rparr>"

definition hub_three :: hub where
  "hub_three =
     \<lparr>progressClients = [''s1'' \<mapsto> [0, 1, 2]], completedDownloads = Map.empty,
      chans = (\<lambda>c. if c = 1 then \<lparr>queue = replicate 10 queued, isClosed = False\<rparr>
                     else \<lparr>queue = [], isClosed = False\<rparr>),
      nextChan = 3\<rparr>"

section \<open>Escaping and parsing: auxiliary facts\<close>

lemma byte_lt_256: "byte c < 256"
  by (simp add: byte_def)

lemma lt16_cases: "(n::nat) < 16 \<Longrightarrow> n = 0 \<or> n = 1 \<or> n = 2 \<or> n = 3 \<or> n = 4 \<or> n = 5 \<or> n = 6 \<or> n = 7 \<or> n = 8 \<or> n = 9 \<or> n = 10 \<or> n = 11 \<or> n = 12 \<or> n = 13 \<or> n = 14 \<or> n = 15"
  by arith

lemma upperhex_nth:
  assumes "n < 16"
  shows "ishex (upperhex ! n) \<and> unhex (upperhex ! n) = n"
  using lt16_cases [OF assms]
  by (elim disjE) (simp_all add: upperhex_def ishex_def unhex_def isDigit_def byte_def)

lemma char_of_hex_byte: "char_of (unhex (upperhex ! (byte c div 16)) * 16 + unhex (upperhex ! (byte c mod 16))) = c"
proof -
  have a: "byte c div 16 < 16" using byte_lt_256 [of c] by simp
  have b: "byte c mod 16 < 16" by simp
  have "unhex (upperhex ! (byte c div 16)) * 16 + unhex (upperhex ! (byte c mod 16)) = byte c"
    using upperhex_nth [OF a] upperhex_nth [OF b] by simp
  then show ?thesis by (simp add: byte_def)
qed

lemma shouldEscape_query_safe:
  "\<not> shouldEscape c encodeQueryComponent \<Longrightarrow>
     isLower c \<or> isUpper c \<or> isDigit c \<or> c \<in> set ''-_.~''"
  unfolding shouldEscape_def by (simp split: if_splits) blast

lemma querySafe_not:
  "querySafe c \<Longrightarrow> c \<noteq> CHR ''#'' \<and> c \<noteq> CHR ''?'' \<and> c \<noteq> CHR ''&'' \<and> c \<noteq> CHR ''=''
      \<and> c \<noteq> CHR '';'' \<and> c \<noteq> CHR ''/'' \<and> \<not> (byte c < 32 \<or> byte c = 127)"
  by (auto simp: querySafe_def isLower_def isUpper_def isDigit_def byte_def less_eq_char_def)

lemma upperhex_alnum:
  assumes "n < 16"
  shows "querySafe (upperhex ! n)"
  using lt16_cases [OF assms]
  by (elim disjE) (simp_all add: upperhex_def querySafe_def isDigit_def isUpper_def)

lemma escapeByte_safe: "list_all querySafe (escapeByte encodeQueryComponent c)"
proof -
  have a: "byte c div 16 < 16" using byte_lt_256 [of c] by simp
  have b: "byte c mod 16 < 16" by simp
  show ?thesis
    using upperhex_alnum [OF a] upperhex_alnum [OF b] shouldEscape_query_safe [of c]
    by (auto simp: escapeByte_def querySafe_def)
qed

lemma QueryEscape_safe: "list_all querySafe (QueryEscape s)"
  by (induction s) (simp_all add: QueryEscape_def escape_def escapeByte_safe)

lemma QueryEscape_Nil_iff: "QueryEscape s = [] \<longleftrightarrow> s = []"
  by (cases s) (auto simp: QueryEscape_def escape_def escapeByte_def)

lemma shouldEscape_percent_plus:
  "shouldEscape CHR ''%'' encodeQueryComponent" "shouldEscape CHR ''+'' encodeQueryComponent"
  by (simp_all add: shouldEscape_def isLower_def isUpper_def isDigit_def)

lemma unescape_check_escapeByte:
  "unescape_check encodeQueryComponent (escapeByte encodeQueryComponent c @ r)
     = unescape_check encodeQueryComponent r"
proof -
  have a: "byte c div 16 < 16" using byte_lt_256 [of c] by simp
  have b: "byte c mod 16 < 16" by simp
  show ?thesis
    using upperhex_nth [OF a] upperhex_nth [OF b] shouldEscape_percent_plus
    by (auto simp: escapeByte_def)
qed

lemma unescape_build_escapeByte:
  "unescape_build encodeQueryComponent (escapeByte encodeQueryComponent c @ r)
     = c # unescape_build encodeQueryComponent r"
  using shouldEscape_percent_plus
  by (auto simp: escapeByte_def char_of_hex_byte)

lemma QueryUnescape_QueryEscape: "QueryUnescape (QueryEscape s) = Inr s"
proof -
  have "unescape_check encodeQueryComponent (escape s encodeQueryComponent) = None"
    by (induction s) (simp_all add: escape_def unescape_check_escapeByte)
  moreover have "unescape_build encodeQueryComponent (escape s encodeQueryComponent) = s"
    by (induction s) (simp_all add: escape_def unescape_build_escapeByte)
  ultimately show ?thesis
    by (simp add: QueryUnescape_def QueryEscape_def unescape_def)
qed

lemma Index_byte_absent: "x \<notin> set a \<Longrightarrow> Index a [x] = None"
  by (induction a) (auto simp: HasPrefix_def)

lemma Index_byte_first: "x \<notin> set a \<Longrightarrow> Index (a @ x # b) [x] = Some (length a)"
  by (induction a) (auto simp: HasPrefix_def)

lemma Cut_byte_absent: "x \<notin> set a \<Longrightarrow> Cut a [x] = (a, [], False)"
  by (simp add: Cut_def Index_byte_absent)

lemma Cut_byte_first: "x \<notin> set a \<Longrightarrow> Cut (a @ x # b) [x] = (a, b, True)"
  by (simp add: Cut_def Index_byte_first)

lemma Contains_byte_absent: "x \<notin> set a \<Longrightarrow> \<not> Contains a [x]"
  by (simp add: Contains_def Index_byte_absent)

lemma querySafe_set:
  assumes "list_all querySafe s"
  shows "CHR ''#'' \<notin> set s" "CHR ''?'' \<notin> set s" "CHR ''&'' \<notin> set s" "CHR ''='' \<notin> set s"
        "CHR '';'' \<notin> set s" "\<not> stringContainsCTLByte s"
  using assms querySafe_not
  by (auto simp: list_all_iff stringContainsCTLByte_def list_ex_iff)

lemma QueryEscape_keys: "QueryEscape ''t'' = ''t''" "QueryEscape ''v'' = ''v''"
  by (simp_all add: QueryEscape_def escape_def escapeByte_def shouldEscape_def isLower_def)

lemma Values_Encode_canon:
  "Values_Encode (withTime (Values_Set [] ''v'' vid) t) = canonQuery vid t"
  by (simp add: Values_Encode_def withTime_def Values_Set_def Values_lookup_def canonQuery_def
      QueryEscape_keys)

lemma canonQuery_not_Nil: "canonQuery vid t \<noteq> []"
  by (simp add: canonQuery_def)

lemma watchURL_string:
  "watchURL q = ''https://www.youtube.com/watch''
                 @ (if Values_Encode q \<noteq> [] then ''?'' @ Values_Encode q else [])"
  by (simp add: watchURL_def URL_String_def emptyURL_def String_path_def String_authority_def
      EscapedPath_def escape_def escapeByte_def shouldEscape_def isLower_def isUpper_def
      isDigit_def Cut_def HasPrefix_def Contains_def Let_def)

lemma canonQuery_set:
  "CHR ''#'' \<notin> set (canonQuery vid t)" "CHR ''?'' \<notin> set (canonQuery vid t)"
  "\<not> stringContainsCTLByte (canonQuery vid t)"
  using querySafe_set [OF QueryEscape_safe [of vid]] querySafe_set [OF QueryEscape_safe [of t]]
  by (simp_all add: canonQuery_def stringContainsCTLByte_def byte_def)

lemma canonQuery_last: "vid \<noteq> [] \<Longrightarrow> last (canonQuery vid t) \<noteq> CHR ''?''"
proof -
  assume "vid \<noteq> []"
  then have ne: "QueryEscape vid \<noteq> []" by (simp add: QueryEscape_Nil_iff)
  then have "last (canonQuery vid t) = last (QueryEscape vid)"
    by (simp add: canonQuery_def)
  moreover have "last (QueryEscape vid) \<in> set (QueryEscape vid)" using ne by simp
  ultimately show ?thesis
    using querySafe_set(2) [OF QueryEscape_safe [of vid]] by metis
qed

lemma parse_rest_canon:
  "parse_rest (emptyURL\<lparr>Scheme := ''https'', RawQuery := q\<rparr>) ''//www.youtube.com/watch''
     = Inr (canonURL q)"
  by (simp add: parse_rest_def emptyURL_def canonURL_def HasPrefix_def Let_def parseAuthority_def
      LastIndex_def parseHost_def unescape_def setPath_def escape_def escapeByte_def
      shouldEscape_def isLower_def isUpper_def isDigit_def byte_def split: option.splits)

lemma HasSuffix_byte: "HasSuffix s [x] \<longleftrightarrow> s \<noteq> [] \<and> last s = x"
proof (cases s rule: rev_cases)
  case Nil
  then show ?thesis by (simp add: HasSuffix_def)
next
  case (snoc ys y)
  then show ?thesis by (auto simp: HasSuffix_def)
qed

lemma getScheme_canon:
  "getScheme (canonString q) = Inr (''https'', ''//www.youtube.com/watch?'' @ q)"
  by (simp add: getScheme_def canonString_def isLower_def isUpper_def isDigit_def)

lemma ToLower_https: "ToLower ul ''https'' = ''https''"
  by (simp add: ToLower_def isASCII_def byte_def lowerByte_def isUpper_def)

lemma parse_canon:
  assumes q: "CHR ''?'' \<notin> set q" "\<not> stringContainsCTLByte q" "q \<noteq> []" "last q \<noteq> CHR ''?''"
  shows "parse (canonString q) = Inr (canonURL q)"
proof -
  have ctl: "\<not> stringContainsCTLByte (canonString q)"
    using q(2) by (simp add: canonString_def stringContainsCTLByte_def byte_def)
  have star: "canonString q \<noteq> ''*''"
    by (simp add: canonString_def)
  have suf: "\<not> HasSuffix (''//www.youtube.com/watch?'' @ q) ''?''"
    using q(3,4) by (simp add: HasSuffix_byte)
  have "''//www.youtube.com/watch?'' @ q = ''//www.youtube.com/watch'' @ CHR ''?'' # q"
    by simp
  then have cut: "Cut (''//www.youtube.com/watch?'' @ q) ''?'' = (''//www.youtube.com/watch'', q, True)"
    using Cut_byte_first [of "CHR ''?''" "''//www.youtube.com/watch''" q] by simp
  show ?thesis
    unfolding parse_def
    by (simp only: ctl star getScheme_canon suf cut ToLower_https if_False sum.case prod.case
        Let_def simp_thms)
       (simp add: parse_rest_canon [symmetric] emptyURL_def)
qed

lemma url_Parse_canon:
  assumes "vid \<noteq> []"
  shows "url_Parse (canonString (canonQuery vid t)) = Inr (canonURL (canonQuery vid t))"
proof -
  have "CHR ''#'' \<notin> set (canonString (canonQuery vid t))"
    using canonQuery_set(1) [of vid t] by (simp add: canonString_def)
  then have "Cut (canonString (canonQuery vid t)) ''#'' = (canonString (canonQuery vid t), [], False)"
    by (rule Cut_byte_absent)
  moreover have "parse (canonString (canonQuery vid t)) = Inr (canonURL (canonQuery vid t))"
    using canonQuery_set [of vid t] canonQuery_not_Nil canonQuery_last [OF assms]
    by (intro parse_canon)
  ultimately show ?thesis
    by (simp add: url_Parse_def)
qed

lemma parseQuery_Nil: "parseQuery m [] = m"
  by (subst parseQuery.simps) simp

lemma query_piece_facts:
  assumes "list_all querySafe k"
  shows "CHR ''&'' \<notin> set (k @ CHR ''='' # QueryEscape x)"
    and "\<not> Contains (k @ CHR ''='' # QueryEscape x) '';''"
    and "Cut (k @ CHR ''='' # QueryEscape x) ''='' = (k, QueryEscape x, True)"
proof -
  show a: "CHR ''&'' \<notin> set (k @ CHR ''='' # QueryEscape x)"
    using querySafe_set(3) [OF assms] querySafe_set(3) [OF QueryEscape_safe [of x]] by simp
  have "CHR '';'' \<notin> set (k @ CHR ''='' # QueryEscape x)"
    using querySafe_set(5) [OF assms] querySafe_set(5) [OF QueryEscape_safe [of x]] by simp
  then show "\<not> Contains (k @ CHR ''='' # QueryEscape x) '';''"
    by (rule Contains_byte_absent)
  show "Cut (k @ CHR ''='' # QueryEscape x) ''='' = (k, QueryEscape x, True)"
    using querySafe_set(4) [OF assms] by (rule Cut_byte_first)
qed

lemma parseQuery_last_piece:
  assumes "list_all querySafe k" and "QueryUnescape k = Inr k"
  shows "parseQuery m (k @ CHR ''='' # QueryEscape x) = Values_append m k x"
proof -
  let ?p = "k @ CHR ''='' # QueryEscape x"
  have cut: "Cut ?p ''&'' = (?p, [], False)"
    using query_piece_facts(1) [OF assms(1)] by (rule Cut_byte_absent)
  show ?thesis
    by (subst parseQuery.simps)
       (simp add: cut query_piece_facts(2,3) [OF assms(1)] assms(2)
          QueryUnescape_QueryEscape parseQuery_Nil)
qed

lemma parseQuery_piece:
  assumes "list_all querySafe k" and "QueryUnescape k = Inr k"
  shows "parseQuery m (k @ CHR ''='' # QueryEscape x @ CHR ''&'' # rest)
           = parseQuery (Values_append m k x) rest"
proof -
  let ?p = "k @ CHR ''='' # QueryEscape x"
  have "Cut (?p @ CHR ''&'' # rest) ''&'' = (?p, rest, True)"
    using query_piece_facts(1) [OF assms(1)] by (rule Cut_byte_first)
  then have cut: "Cut (k @ CHR ''='' # QueryEscape x @ CHR ''&'' # rest) ''&'' = (?p, rest, True)"
    by simp
  show ?thesis
    by (subst parseQuery.simps)
       (simp add: cut query_piece_facts(2,3) [OF assms(1)] assms(2)
          QueryUnescape_QueryEscape)
qed

lemma key_facts:
  "list_all querySafe ''t''" "QueryUnescape ''t'' = Inr ''t''"
  "list_all querySafe ''v''" "QueryUnescape ''v'' = Inr ''v''"
  by (simp_all add: querySafe_def isLower_def QueryUnescape_def unescape_def)

lemma parseQuery_canon:
  "parseQuery [] (canonQuery vid t)
     = (if t \<noteq> [] then [(''t'', [t]), (''v'', [vid])] else [(''v'', [vid])])"
proof (cases "t = []")
  case True
  then show ?thesis
    using parseQuery_last_piece [OF key_facts(3,4), of "[]" vid]
    by (simp add: canonQuery_def Values_append_def Values_lookup_def)
next
  case False
  have "parseQuery [] (''t'' @ CHR ''='' # QueryEscape t @ CHR ''&'' # (''v'' @ CHR ''='' # QueryEscape vid))
          = parseQuery (Values_append [] ''t'' t) (''v'' @ CHR ''='' # QueryEscape vid)"
    by (rule parseQuery_piece [OF key_facts(1,2)])
  also have "\<dots> = Values_append (Values_append [] ''t'' t) ''v'' vid"
    by (rule parseQuery_last_piece [OF key_facts(3,4)])
  finally show ?thesis
    using False by (simp add: canonQuery_def Values_append_def Values_lookup_def)
qed

lemma watchURL_canon:
  "watchURL (withTime (Values_Set [] ''v'' vid) t) = canonString (canonQuery vid t)"
  by (simp add: watchURL_string Values_Encode_canon canonQuery_not_Nil canonString_def)

lemma canonicalYouTube_canon:
  assumes "vid \<noteq> []"
  shows "canonicalYouTube ul (canonString (canonQuery vid t))
           = (canonString (canonQuery vid t), True)"
proof -
  have host: "ToLower ul ''www.youtube.com'' = ''www.youtube.com''"
    by (simp add: ToLower_def isASCII_def byte_def lowerByte_def isUpper_def)
  have q: "URL_Query (canonURL (canonQuery vid t))
             = (if t \<noteq> [] then [(''t'', [t]), (''v'', [vid])] else [(''v'', [vid])])"
    by (simp add: URL_Query_def canonURL_def parseQuery_canon)
  have v: "Values_Get (URL_Query (canonURL (canonQuery vid t))) ''v'' = vid"
    by (simp add: q Values_Get_def Values_lookup_def split: list.splits)
  have t: "Values_Get (URL_Query (canonURL (canonQuery vid t))) ''t'' = t"
    by (simp add: q Values_Get_def Values_lookup_def split: list.splits)
  have fields: "Host (canonURL (canonQuery vid t)) = ''www.youtube.com''"
    "Path (canonURL (canonQuery vid t)) = ''/watch''"
    by (simp_all add: canonURL_def)
  have parts: "Split (Trim ''/watch'' ''/'') CHR ''/'' = [''watch'']"
    by (simp add: Trim_def)
  show ?thesis
    unfolding canonicalYouTube_def url_Parse_canon [OF assms] sum.case Let_def fields host parts
      v t watchURL_canon
    using assms by (simp add: HasSuffix_def HasPrefix_def)
qed

section \<open>The canonicalizer\<close>

lemma canonicalYouTube_cases:
  assumes none: "P ([], False)"
    and some: "\<And>vid t. vid \<noteq> [] \<Longrightarrow> P (watchURL (withTime (Values_Set [] ''v'' vid) t), True)"
  shows "P (canonicalYouTube ul u)"
proof -
  have emb: "(if t \<noteq> [] then Values_Set q ''t'' (t @ ''s'') else q)
               = withTime q (if t \<noteq> [] then t @ ''s'' else [])" for q t
    by (simp add: withTime_def)
  show ?thesis
    unfolding canonicalYouTube_def Let_def emb
    by (simp add: none some split: sum.splits)
qed

lemma canonicalYouTube_shape:
  assumes "canonicalYouTube ul u = (c, True)"
  shows "\<exists>vid t. vid \<noteq> [] \<and> c = canonString (canonQuery vid t)"
proof -
  have "snd (canonicalYouTube ul u) \<longrightarrow>
          (\<exists>vid t. vid \<noteq> [] \<and> fst (canonicalYouTube ul u) = canonString (canonQuery vid t))"
    by (rule canonicalYouTube_cases) (auto simp: watchURL_canon)
  with assms show ?thesis by simp
qed

text \<open>
  Claim C2.  The canonicalizer is idempotent: whenever \<open>canonicalYouTube\<close> accepts an input
  and returns \<open>c\<close>, it accepts \<open>c\<close> and returns \<open>c\<close> again.
\<close>

theorem canonicalYouTube_idempotent:
  "canonicalYouTube ul u = (c, True) \<Longrightarrow> canonicalYouTube ul c = (c, True)"
  using canonicalYouTube_shape canonicalYouTube_canon by blast

theorem canonicalYouTube_idempotent_witness:
  "canonicalYouTube (\<lambda>s. s) ''https://youtu.be/abc123?t=42&si=xyz''
     = (''https://www.youtube.com/watch?t=42&v=abc123'', True)
   \<and> canonicalYouTube (\<lambda>s. s) ''https://www.youtube.com/watch?t=42&v=abc123''
     = (''https://www.youtube.com/watch?t=42&v=abc123'', True)"
proof -
  have h: "canonicalYouTube (\<lambda>s. s) ''https://youtu.be/abc123?t=42&si=xyz''
             = (''https://www.youtube.com/watch?t=42&v=abc123'', True)"
    by code_simp
  from canonicalYouTube_idempotent [OF h] h show ?thesis by simp
qed

text \<open>
  Claim C8.  The short link \<^verbatim>\<open>https://youtu.be/abc123\<close> is rewritten to the watch URL
  whose query is exactly \<^verbatim>\<open>v=abc123\<close>: parsing the result gives the single parameter
  \<open>v\<close> with the single value \<open>abc123\<close>.
\<close>

theorem canonicalYouTube_short_link:
  "canonicalYouTube ul ''https://youtu.be/abc123'' = (''https://www.youtube.com/watch?v=abc123'', True)
   \<and> url_Parse ''https://www.youtube.com/watch?v=abc123'' = Inr (canonURL ''v=abc123'')
   \<and> URL_Query (canonURL ''v=abc123'') = [(''v'', [''abc123''])]"
  by code_simp

text \<open>
  Claim C9.  From \<^verbatim>\<open>https://www.youtube.com/watch?v=abc123&list=PL1&si=xyz\<close> only the
  video id is kept: the result is the watch URL with the query \<^verbatim>\<open>v=abc123\<close>, and the
  parameters \<open>list\<close> and \<open>si\<close> are gone.
\<close>

theorem canonicalYouTube_strips_tracking:
  "canonicalYouTube ul ''https://www.youtube.com/watch?v=abc123&list=PL1&si=xyz''
     = (''https://www.youtube.com/watch?v=abc123'', True)
   \<and> url_Parse ''https://www.youtube.com/watch?v=abc123'' = Inr (canonURL ''v=abc123'')
   \<and> URL_Query (canonURL ''v=abc123'') = [(''v'', [''abc123''])]"
  by code_simp

text \<open>
  Claim C10.  Every string \<open>canonicalYouTube\<close> returns with \<open>true\<close> parses to a URL with
  scheme \<open>https\<close>, host \<open>www.youtube.com\<close>, path \<open>/watch\<close>, no fragment, and a query
  whose keys are among \<open>v\<close> and \<open>t\<close>, with \<open>v\<close> present and not empty.
\<close>

theorem canonicalYouTube_output_shape:
  assumes "canonicalYouTube ul u = (c, True)"
  shows "\<exists>p. url_Parse c = Inr p \<and> Scheme p = ''https'' \<and> Host p = ''www.youtube.com''
            \<and> Path p = ''/watch'' \<and> Fragment p = [] \<and> Opaque p = [] \<and> User p = None
            \<and> set (map fst (URL_Query p)) \<subseteq> {''v'', ''t''}
            \<and> ''v'' \<in> set (map fst (URL_Query p))
            \<and> Values_Get (URL_Query p) ''v'' \<noteq> []"
proof -
  from canonicalYouTube_shape [OF assms] obtain vid t
    where v: "vid \<noteq> []" and c: "c = canonString (canonQuery vid t)" by blast
  let ?p = "canonURL (canonQuery vid t)"
  have "url_Parse c = Inr ?p"
    using url_Parse_canon [OF v] c by simp
  moreover have "URL_Query ?p = (if t \<noteq> [] then [(''t'', [t]), (''v'', [vid])] else [(''v'', [vid])])"
    by (simp add: URL_Query_def canonURL_def parseQuery_canon)
  ultimately show ?thesis
    using v by (auto simp: canonURL_def emptyURL_def Values_Get_def Values_lookup_def)
qed

theorem canonicalYouTube_output_shape_witness:
  "canonicalYouTube (\<lambda>s. s) ''https://www.youtube.com/embed/abc123?start=30#top''
     = (''https://www.youtube.com/watch?t=30s&v=abc123'', True)
   \<and> (\<exists>p. url_Parse ''https://www.youtube.com/watch?t=30s&v=abc123'' = Inr p
          \<and> Scheme p = ''https'' \<and> Host p = ''www.youtube.com''
          \<and> Path p = ''/watch'' \<and> Fragment p = [] \<and> Opaque p = [] \<and> User p = None
          \<and> set (map fst (URL_Query p)) \<subseteq> {''v'', ''t''}
          \<and> ''v'' \<in> set (map fst (URL_Query p))
          \<and> Values_Get (URL_Query p) ''v'' \<noteq> [])"
proof -
  have h: "canonicalYouTube (\<lambda>s. s) ''https://www.youtube.com/embed/abc123?start=30#top''
             = (''https://www.youtube.com/watch?t=30s&v=abc123'', True)"
    by code_simp
  from canonicalYouTube_output_shape [OF h] h show ?thesis by simp
qed

section \<open>The redirect resolver\<close>

lemma probes_append: "probes (xs @ ys) = probes xs + probes ys"
  by (simp add: probes_def)

lemma probes_probe: "probe env i u = (x, reqs) \<Longrightarrow> probes reqs = 1"
  by (auto simp: probe_def probes_def split: sum.splits)

lemma resolveHTTP_loop_outcome:
  "resolveHTTP_loop env maxHops i u log = ((r, e), log') \<Longrightarrow>
     probes log' \<le> probes log + nat (maxHops - i)
     \<and> (case e of
          None \<Rightarrow>
            (\<exists>k resp. i \<le> k \<and> k < maxHops \<and> fst (probe env k r) = Inr resp
                \<and> StatusCode resp div 100 \<noteq> 3 \<and> probes log' = probes log + nat (k - i) + 1)
        | Some (TooManyRedirects n) \<Rightarrow>
            n = maxHops \<and> r = [] \<and> probes log' = probes log + nat (maxHops - i)
        | Some _ \<Rightarrow> r = [])"
proof (induction env maxHops i u log rule: resolveHTTP_loop.induct)
  case (1 env maxHops i u log)
  show ?case
  proof (cases "i < maxHops")
    case False
    with "1.prems" show ?thesis
      by (subst (asm) resolveHTTP_loop.simps) auto
  next
    case lt: True
    show ?thesis
    proof (cases "url_Parse u")
      case (Inl err)
      with lt "1.prems" show ?thesis
        by (subst (asm) resolveHTTP_loop.simps) auto
    next
      case (Inr base)
      obtain x reqs where p: "probe env i u = (x, reqs)"
        by (cases "probe env i u")
      note one = probes_probe [OF p]
      show ?thesis
      proof (cases x)
        case (Inl terr)
        with lt Inr p one "1.prems" show ?thesis
          by (subst (asm) resolveHTTP_loop.simps) (auto simp: probes_append)
      next
        case resp: (Inr resp)
        show ?thesis
        proof (cases "StatusCode resp div 100 = 3")
          case False
          with lt Inr p resp "1.prems" have "r = u" "e = None" "log' = log @ reqs"
            by (subst (asm) resolveHTTP_loop.simps, simp)+
          moreover have "fst (probe env i r) = Inr resp"
            using p resp \<open>r = u\<close> by simp
          ultimately show ?thesis
            using lt False one by (auto simp: probes_append intro!: exI [of _ i])
        next
          case redir: True
          show ?thesis
          proof (cases "Location resp = []")
            case True
            with lt Inr p resp redir one "1.prems" show ?thesis
              by (subst (asm) resolveHTTP_loop.simps) (auto simp: probes_append)
          next
            case loc: False
            show ?thesis
            proof (cases "url_Parse (Location resp)")
              case (Inl err)
              with lt Inr p resp redir loc one "1.prems" show ?thesis
                by (subst (asm) resolveHTTP_loop.simps) (auto simp: probes_append)
            next
              case nxt: (Inr nxt)
              from lt Inr p resp redir loc nxt "1.prems"
              have rec: "resolveHTTP_loop env maxHops (i + 1) (resolve_ref env base nxt) (log @ reqs)
                           = ((r, e), log')"
                by (subst (asm) resolveHTTP_loop.simps) simp
              have ih: "probes log' \<le> probes (log @ reqs) + nat (maxHops - (i + 1))
                 \<and> (case e of
                      None \<Rightarrow>
                        (\<exists>k resp. i + 1 \<le> k \<and> k < maxHops \<and> fst (probe env k r) = Inr resp
                            \<and> StatusCode resp div 100 \<noteq> 3
                            \<and> probes log' = probes (log @ reqs) + nat (k - (i + 1)) + 1)
                    | Some (TooManyRedirects n) \<Rightarrow>
                        n = maxHops \<and> r = [] \<and> probes log' = probes (log @ reqs) + nat (maxHops - (i + 1))
                    | Some _ \<Rightarrow> r = [])"
                using "1.IH" [OF lt Inr p [symmetric] resp redir loc nxt rec] .
              have step: "probes (log @ reqs) + nat (maxHops - (i + 1)) = probes log + nat (maxHops - i)"
                using one lt by (simp add: probes_append)
              have bound: "probes log' \<le> probes log + nat (maxHops - i)"
                using ih step by simp
              show ?thesis
              proof (cases e)
                case None
                with ih obtain k resp' where k: "i + 1 \<le> k" "k < maxHops"
                  "fst (probe env k r) = Inr resp'" "StatusCode resp' div 100 \<noteq> 3"
                  "probes log' = probes (log @ reqs) + nat (k - (i + 1)) + 1"
                  by auto
                have "probes log' = probes log + nat (k - i) + 1"
                  using k(1,5) one by (simp add: probes_append)
                moreover have "i \<le> k" using k(1) by simp
                ultimately have "\<exists>k resp. i \<le> k \<and> k < maxHops \<and> fst (probe env k r) = Inr resp
                    \<and> StatusCode resp div 100 \<noteq> 3 \<and> probes log' = probes log + nat (k - i) + 1"
                  using k(2,3,4) by blast
                with None bound show ?thesis by simp
              next
                case (Some err)
                show ?thesis
                proof (cases err)
                  case (TooManyRedirects n)
                  with Some ih step bound show ?thesis by simp
                qed (use Some ih bound in simp_all)
              qed
            qed
          qed
        qed
      qed
    qed
  qed
qed

text \<open>
  Claim C3, as amended.  \<open>resolveHTTP\<close> makes at most \<open>maxHops\<close> passes of its loop (none
  when \<open>maxHops\<close> is not positive) and ends in one of three ways: with a URL and no error,
  and then the probe of that URL in the last pass got a response that is not a redirect;
  with the error \<open>TooManyRedirects\<close> and the empty string, after \<open>maxHops\<close> passes; or
  with another error (a URL that does not parse, a request that failed as HEAD and as GET,
  a redirect without \<^verbatim>\<open>Location\<close>) and the empty string.
\<close>

theorem resolveHTTP_outcomes:
  assumes "resolveHTTP env u maxHops = ((r, e), log)"
  shows "probes log \<le> nat maxHops
     \<and> (case e of
          None \<Rightarrow>
            (\<exists>k resp. 0 \<le> k \<and> k < maxHops \<and> fst (probe env k r) = Inr resp
                \<and> StatusCode resp div 100 \<noteq> 3 \<and> probes log = nat k + 1)
        | Some (TooManyRedirects n) \<Rightarrow> n = maxHops \<and> r = [] \<and> probes log = nat maxHops
        | Some _ \<Rightarrow> r = [])"
proof -
  have "probes [] = 0" by (simp add: probes_def)
  with resolveHTTP_loop_outcome [of env maxHops 0 u "[]" r e log] assms
  show ?thesis by (auto simp: resolveHTTP_def split: option.splits http_error.splits)
qed

theorem resolveHTTP_outcomes_witness:
  "resolveHTTP net_redirecting ''http://a.test/'' 10
     = ((''http://b.test/next'', None),
        [(HEAD, ''http://a.test/''), (GET, ''http://a.test/''),
         (HEAD, ''http://b.test/next''), (GET, ''http://b.test/next''),
         (HEAD, ''http://b.test/next''), (GET, ''http://b.test/next'')])
   \<and> probes [(HEAD, ''http://a.test/''), (GET, ''http://a.test/''),
         (HEAD, ''http://b.test/next''), (GET, ''http://b.test/next''),
         (HEAD, ''http://b.test/next''), (GET, ''http://b.test/next'')] \<le> nat 10
   \<and> (\<exists>k resp. 0 \<le> k \<and> k < 10 \<and> fst (probe net_redirecting k ''http://b.test/next'') = Inr resp
         \<and> StatusCode resp div 100 \<noteq> 3
         \<and> probes [(HEAD, ''http://a.test/''), (GET, ''http://a.test/''),
              (HEAD, ''http://b.test/next''), (GET, ''http://b.test/next''),
              (HEAD, ''http://b.test/next''), (GET, ''http://b.test/next'')] = nat k + 1)"
proof -
  have h: "resolveHTTP net_redirecting ''http://a.test/'' 10
     = ((''http://b.test/next'', None),
        [(HEAD, ''http://a.test/''), (GET, ''http://a.test/''),
         (HEAD, ''http://b.test/next''), (GET, ''http://b.test/next''),
         (HEAD, ''http://b.test/next''), (GET, ''http://b.test/next'')])"
    by code_simp
  from resolveHTTP_outcomes [OF h] h show ?thesis by simp
qed

text \<open>
  Claim C3 as stated leaves out the third way: a server that answers 302 without a
  \<^verbatim>\<open>Location\<close> header makes \<open>resolveHTTP\<close> return an error that is not
  \<open>TooManyRedirects\<close>, and no URL.
\<close>

theorem resolveHTTP_other_error_counterexample:
  "resolveHTTP net_bare_redirect ''http://a.test/'' 5
     = (([], Some RedirectWithoutLocation), [(HEAD, ''http://a.test/'')])
   \<and> RedirectWithoutLocation \<noteq> TooManyRedirects 5"
  by code_simp

lemma resolveHTTP_loop_follow:
  assumes "i < maxHops" and "follow env i u = Some u'"
  shows "resolveHTTP_loop env maxHops i u log
           = resolveHTTP_loop env maxHops (i + 1) u' (log @ snd (probe env i u))"
  using assms
  by (subst resolveHTTP_loop.simps)
     (auto simp: follow_def split: sum.splits prod.splits if_splits)

lemma resolveHTTP_loop_return:
  assumes "i < maxHops" and "follow env i u = None"
  shows "snd (fst (resolveHTTP_loop env maxHops i u log)) \<noteq> Some (TooManyRedirects n)"
  using assms
  by (subst resolveHTTP_loop.simps)
     (auto simp: follow_def split: sum.splits prod.splits if_splits)

lemma resolveHTTP_loop_exhausts:
  "redirected env maxHops i u = Some best \<Longrightarrow>
     \<exists>log'. resolveHTTP_loop env maxHops i u log = (([], Some (TooManyRedirects maxHops)), log')
        \<and> probes log' = probes log + nat (maxHops - i)"
proof (induction env maxHops i u arbitrary: log rule: redirected.induct)
  case (1 env maxHops i u)
  show ?case
  proof (cases "i < maxHops")
    case False
    then show ?thesis by (subst resolveHTTP_loop.simps) simp
  next
    case True
    with "1.prems" obtain u' where f: "follow env i u = Some u'"
      and r: "redirected env maxHops (i + 1) u' = Some best"
      by (subst (asm) redirected.simps) (auto split: option.splits)
    obtain x reqs where p: "probe env i u = (x, reqs)" by (cases "probe env i u")
    from "1.IH" [OF True f r, of "log @ reqs"] obtain log'
      where l: "resolveHTTP_loop env maxHops (i + 1) u' (log @ reqs)
                  = (([], Some (TooManyRedirects maxHops)), log')"
        and n: "probes log' = probes (log @ reqs) + nat (maxHops - (i + 1))"
      by blast
    have "probes log' = probes log + nat (maxHops - i)"
      using n probes_probe [OF p] True by (simp add: probes_append)
    with l resolveHTTP_loop_follow [OF True f, of log] p show ?thesis by simp
  qed
qed

lemma resolveHTTP_loop_exhausted:
  "snd (fst (resolveHTTP_loop env maxHops i u log)) = Some (TooManyRedirects n) \<Longrightarrow>
     redirected env maxHops i u \<noteq> None"
proof (induction env maxHops i u arbitrary: log rule: redirected.induct)
  case (1 env maxHops i u)
  show ?case
  proof (cases "i < maxHops")
    case False
    then show ?thesis by (subst redirected.simps) simp
  next
    case True
    show ?thesis
    proof (cases "follow env i u")
      case None
      with resolveHTTP_loop_return [OF True None] "1.prems" show ?thesis by simp
    next
      case (Some u')
      from "1.prems" resolveHTTP_loop_follow [OF True Some, of log]
      have "snd (fst (resolveHTTP_loop env maxHops (i + 1) u' (log @ snd (probe env i u))))
              = Some (TooManyRedirects n)"
        by simp
      from "1.IH" [OF True Some this] True Some show ?thesis
        by (subst redirected.simps) simp
    qed
  qed
qed

text \<open>The error is \<open>TooManyRedirects\<close> exactly when every pass has been a followed redirect.\<close>

lemma resolveHTTP_too_many_iff:
  "(\<exists>n. snd (fst (resolveHTTP env u maxHops)) = Some (TooManyRedirects n))
     \<longleftrightarrow> redirected env maxHops 0 u \<noteq> None"
proof
  assume "\<exists>n. snd (fst (resolveHTTP env u maxHops)) = Some (TooManyRedirects n)"
  then show "redirected env maxHops 0 u \<noteq> None"
    by (auto simp: resolveHTTP_def dest: resolveHTTP_loop_exhausted)
next
  assume "redirected env maxHops 0 u \<noteq> None"
  then obtain best where "redirected env maxHops 0 u = Some best" by blast
  from resolveHTTP_loop_exhausts [OF this, of "[]"] show
    "\<exists>n. snd (fst (resolveHTTP env u maxHops)) = Some (TooManyRedirects n)"
    by (auto simp: resolveHTTP_def)
qed

text \<open>
  Claim C4, as amended.  When \<open>resolveHTTP\<close> runs out of passes, every one of its
  \<open>maxHops\<close> passes having followed a redirect, it returns the error \<open>TooManyRedirects\<close>
  with the empty string, not with the URL it has reached.  The caller \<open>resolveYouTubeURL\<close>,
  whose bound is 10, then returns its own input with that error and both flags false,
  when the input is not one \<open>canonicalYouTube\<close> matches.
\<close>

theorem resolveHTTP_too_many_redirects:
  assumes "redirected env maxHops 0 u = Some best"
  shows "\<exists>log. resolveHTTP env u maxHops = (([], Some (TooManyRedirects maxHops)), log)
           \<and> probes log = nat maxHops
           \<and> (maxHops = 10 \<and> \<not> snd (canonicalYouTube ul u) \<longrightarrow>
                resolveYouTubeURL ul env u = ((u, False, False, Some (TooManyRedirects 10)), log))"
proof -
  have "probes [] = 0" by (simp add: probes_def)
  with resolveHTTP_loop_exhausts [OF assms, of "[]"] obtain log
    where r: "resolveHTTP env u maxHops = (([], Some (TooManyRedirects maxHops)), log)"
      and n: "probes log = nat maxHops"
    by (auto simp: resolveHTTP_def)
  have "resolveYouTubeURL ul env u = ((u, False, False, Some (TooManyRedirects 10)), log)"
    if "maxHops = 10" and "\<not> snd (canonicalYouTube ul u)"
    using that r by (cases "canonicalYouTube ul u") (simp add: resolveYouTubeURL_def)
  with r n show ?thesis by blast
qed

theorem resolveHTTP_too_many_redirects_witness:
  "redirected net_loop 10 0 ''http://a.test/'' = Some ''http://b.test/next''
   \<and> \<not> snd (canonicalYouTube (\<lambda>s. s) ''http://a.test/'')
   \<and> (\<exists>log. resolveHTTP net_loop ''http://a.test/'' 10 = (([], Some (TooManyRedirects 10)), log)
          \<and> probes log = nat 10
          \<and> resolveYouTubeURL (\<lambda>s. s) net_loop ''http://a.test/''
              = ((''http://a.test/'', False, False, Some (TooManyRedirects 10)), log))"
proof -
  have h: "redirected net_loop 10 0 ''http://a.test/'' = Some ''http://b.test/next''"
    by code_simp
  have c: "\<not> snd (canonicalYouTube (\<lambda>s. s) ''http://a.test/'')"
    by code_simp
  from resolveHTTP_too_many_redirects [OF h, of "\<lambda>s. s"] c h show ?thesis by simp
qed

text \<open>
  Claim C4 as stated fails: with \<open>maxHops = 2\<close> and two redirects the loop holds
  \<^verbatim>\<open>http://b.test/next\<close> when it runs out of passes, and has probed it, and the result
  carries the empty string.
\<close>

theorem resolveHTTP_empty_url_counterexample:
  "redirected net_redirecting 2 0 ''http://a.test/'' = Some ''http://b.test/next''
   \<and> fst (resolveHTTP net_redirecting ''http://a.test/'' 2) = ([], Some (TooManyRedirects 2))
   \<and> (HEAD, ''http://b.test/next'') \<in> set (snd (resolveHTTP net_redirecting ''http://a.test/'' 2))"
  by code_simp

text \<open>
  Claim C5.  When \<open>canonicalYouTube\<close> does not match the input and \<open>resolveHTTP\<close> returns
  an error, \<open>resolveYouTubeURL\<close> returns the input as it was given, with that error and
  with both flags false.
\<close>

theorem resolveYouTubeURL_soft_failure:
  assumes "canonicalYouTube ul input = (c, False)"
    and "resolveHTTP env input 10 = ((final, Some err), log)"
  shows "resolveYouTubeURL ul env input = ((input, False, False, Some err), log)"
  using assms by (simp add: resolveYouTubeURL_def)

theorem resolveYouTubeURL_soft_failure_witness:
  "canonicalYouTube (\<lambda>s. s) ''https://example.com/video'' = ([], False)
   \<and> resolveHTTP net_down ''https://example.com/video'' 10
       = (([], Some (TransportError ''connection refused'')),
          [(HEAD, ''https://example.com/video''), (GET, ''https://example.com/video'')])
   \<and> resolveYouTubeURL (\<lambda>s. s) net_down ''https://example.com/video''
       = ((''https://example.com/video'', False, False, Some (TransportError ''connection refused'')),
          [(HEAD, ''https://example.com/video''), (GET, ''https://example.com/video'')])"
proof -
  have c: "canonicalYouTube (\<lambda>s. s) ''https://example.com/video'' = ([], False)"
    by code_simp
  have r: "resolveHTTP net_down ''https://example.com/video'' 10
       = (([], Some (TransportError ''connection refused'')),
          [(HEAD, ''https://example.com/video''), (GET, ''https://example.com/video'')])"
    by code_simp
  from resolveYouTubeURL_soft_failure [OF c r] c r show ?thesis by simp
qed

section \<open>The progress hub: properties\<close>

subsection \<open>Fan-out\<close>

lemma trySend_frame:
  "trySend ch update h = Inr h' \<Longrightarrow>
     progressClients h' = progressClients h \<and> completedDownloads h' = completedDownloads h
     \<and> nextChan h' = nextChan h \<and> (\<forall>c. isClosed (chans h' c) = isClosed (chans h c))"
  by (auto simp: trySend_def split: if_splits)

lemma fanout_frame:
  "fanout clients update h = Inr h' \<Longrightarrow>
     progressClients h' = progressClients h \<and> completedDownloads h' = completedDownloads h
     \<and> nextChan h' = nextChan h \<and> (\<forall>c. isClosed (chans h' c) = isClosed (chans h c))"
proof (induction clients arbitrary: h)
  case Nil
  then show ?case by simp
next
  case (Cons ch clients)
  then obtain h1 where s: "trySend ch update h = Inr h1" and f: "fanout clients update h1 = Inr h'"
    by (auto split: sum.splits)
  from trySend_frame [OF s] Cons.IH [OF f] show ?case by simp
qed

lemma closeChan_frame:
  "closeChan ch h = Inr h' \<Longrightarrow>
     progressClients h' = progressClients h \<and> completedDownloads h' = completedDownloads h
     \<and> nextChan h' = nextChan h"
  by (auto simp: closeChan_def split: if_splits)

lemma closeAll_frame:
  "closeAll clients h = Inr h' \<Longrightarrow>
     progressClients h' = progressClients h \<and> completedDownloads h' = completedDownloads h
     \<and> nextChan h' = nextChan h"
proof (induction clients arbitrary: h)
  case Nil
  then show ?case by simp
next
  case (Cons ch clients)
  then obtain h1 where s: "closeChan ch h = Inr h1" and f: "closeAll clients h1 = Inr h'"
    by (auto split: sum.splits)
  from closeChan_frame [OF s] Cons.IH [OF f] show ?case by simp
qed

lemma fanout_delivers:
  assumes "list_all (\<lambda>ch. \<not> isClosed (chans h ch)) clients" and "distinct clients"
  shows "fanout clients update h = Inr (h\<lparr>chans := delivered clients update h\<rparr>)"
  using assms
proof (induction clients arbitrary: h)
  case Nil
  then show ?case by (simp add: delivered_def)
next
  case (Cons ch clients)
  let ?h1 = "if length (queue (chans h ch)) < chanCap
             then h\<lparr>chans := (chans h)(ch := (chans h ch)\<lparr>queue := queue (chans h ch) @ [update]\<rparr>)\<rparr>
             else h"
  have s: "trySend ch update h = Inr ?h1"
    using Cons.prems(1) by (simp add: trySend_def)
  have open1: "list_all (\<lambda>c. \<not> isClosed (chans ?h1 c)) clients"
    using Cons.prems by (auto simp: list_all_iff)
  have d: "distinct clients" using Cons.prems(2) by simp
  have "delivered clients update ?h1 = delivered (ch # clients) update h"
    using Cons.prems(2) by (auto simp: delivered_def fun_eq_iff)
  then have "?h1\<lparr>chans := delivered clients update ?h1\<rparr> = h\<lparr>chans := delivered (ch # clients) update h\<rparr>"
    by simp
  with Cons.IH [OF open1 d] s show ?case by simp
qed

text \<open>
  A call of \<open>sendProgress\<close> with a progress other than 100 during which no other
  goroutine runs, for a session whose registered channels are open and listed once:
  it returns normally, leaves the registry and the cache as they are, appends the update
  to the queue of every registered channel that has room, and leaves every other channel
  as it was.  A single send to an open channel does the same for that channel.
\<close>

lemma trySend_open:
  assumes "\<not> isClosed (chans h ch)"
  shows "trySend ch update h
           = Inr (if length (queue (chans h ch)) < chanCap
                  then h\<lparr>chans := (chans h)(ch := (chans h ch)\<lparr>queue := queue (chans h ch) @ [update]\<rparr>)\<rparr>
                  else h)"
  using assms by (simp add: trySend_def)

lemma sendProgress_alone_delivers:
  assumes "progress \<noteq> 100"
    and "list_all (\<lambda>ch. \<not> isClosed (chans h ch)) (clients_of h sessionID)"
    and "distinct (clients_of h sessionID)"
  shows "\<exists>h'. sendProgress h sessionID progress status now = Inr h'
           \<and> progressClients h' = progressClients h
           \<and> completedDownloads h' = completedDownloads h
           \<and> nextChan h' = nextChan h
           \<and> (\<forall>ch. chans h' ch =
                 (if ch \<in> set (clients_of h sessionID) \<and> length (queue (chans h ch)) < chanCap
                  then (chans h ch)\<lparr>queue := queue (chans h ch)
                           @ [\<lparr>Progress = progress, Status = status, Error = False\<rparr>]\<rparr>
                  else chans h ch))"
  using assms(1) fanout_delivers [OF assms(2,3)]
  by (simp add: sendProgress_def delivered_def)

lemma sendProgress_alone_delivers_example:
  "list_all (\<lambda>ch. \<not> isClosed (chans hub_three ch)) (clients_of hub_three ''s1'')
   \<and> distinct (clients_of hub_three ''s1'')
   \<and> (\<exists>h'. sendProgress hub_three ''s1'' 50 ''half'' 7 = Inr h'
          \<and> progressClients h' = progressClients hub_three
          \<and> completedDownloads h' = completedDownloads hub_three
          \<and> queue (chans h' 0) = [\<lparr>Progress = 50, Status = ''half'', Error = False\<rparr>]
          \<and> queue (chans h' 1) = replicate 10 queued
          \<and> queue (chans h' 2) = [\<lparr>Progress = 50, Status = ''half'', Error = False\<rparr>]
          \<and> chans h' 3 = chans hub_three 3)"
proof -
  have a: "list_all (\<lambda>ch. \<not> isClosed (chans hub_three ch)) (clients_of hub_three ''s1'')"
    by (simp add: hub_three_def clients_of_def)
  have b: "distinct (clients_of hub_three ''s1'')"
    by (simp add: hub_three_def clients_of_def)
  have "(50::int) \<noteq> 100" by simp
  from sendProgress_alone_delivers [OF this a b, of "''half''" 7]
  obtain h' where h: "sendProgress hub_three ''s1'' 50 ''half'' 7 = Inr h'"
    "progressClients h' = progressClients hub_three"
    "completedDownloads h' = completedDownloads hub_three"
    "\<forall>ch. chans h' ch =
        (if ch \<in> set (clients_of hub_three ''s1'') \<and> length (queue (chans hub_three ch)) < chanCap
         then (chans hub_three ch)\<lparr>queue := queue (chans hub_three ch)
                  @ [\<lparr>Progress = 50, Status = ''half'', Error = False\<rparr>]\<rparr>
         else chans hub_three ch)"
    by blast
  have "queue (chans h' 0) = [\<lparr>Progress = 50, Status = ''half'', Error = False\<rparr>]"
    "queue (chans h' 1) = replicate 10 queued"
    "queue (chans h' 2) = [\<lparr>Progress = 50, Status = ''half'', Error = False\<rparr>]"
    "chans h' 3 = chans hub_three 3"
    by (simp_all add: h(4) hub_three_def clients_of_def chanCap_def)
  with a b h(1,2,3) show ?thesis by blast
qed

subsection \<open>The sections of sendProgress\<close>

text \<open>The call with nothing in between is its sections run in a row.\<close>

lemma run_append:
  "run (xs @ ys) s = (case run xs s of None \<Rightarrow> None | Some s' \<Rightarrow> run ys s')"
  by (induction xs arbitrary: s) (auto split: option.splits)

lemma run_sends:
  assumes "sending s = (sid, progress, status, clients) # others"
  shows "run (sends sid progress status clients) s
           = (case fanout clients \<lparr>Progress = progress, Status = status, Error = False\<rparr> (shared s) of
                Inl p \<Rightarrow> None
              | Inr h \<Rightarrow> Some (s\<lparr>shared := h, sending := (sid, progress, status, []) # others\<rparr>))"
  using assms
proof (induction clients arbitrary: s)
  case Nil
  then show ?case by simp
next
  case (Cons ch clients)
  let ?u = "\<lparr>Progress = progress, Status = status, Error = False\<rparr>"
  show ?case
  proof (cases "trySend ch ?u (shared s)")
    case (Inl p)
    with Cons.prems show ?thesis by (simp add: continue_with_def)
  next
    case (Inr h1)
    let ?s1 = "s\<lparr>sending := (sid, progress, status, clients) # others, shared := h1\<rparr>"
    have e: "exec s (Send sid progress status (ch # clients)) = Some ?s1"
      using Cons.prems Inr by (simp add: continue_with_def)
    have "sending ?s1 = (sid, progress, status, clients) # others" by simp
    from Cons.IH [OF this] e Inr show ?thesis by (simp split: sum.splits)
  qed
qed

lemma Publish_as_sections:
  "exec s (Publish sid progress status now)
     = run (Snapshot sid progress status # sends sid progress status (clients_of (shared s) sid)
              @ [Close sid progress status now]) s"
proof -
  let ?u = "\<lparr>Progress = progress, Status = status, Error = False\<rparr>"
  let ?cs = "clients_of (shared s) sid"
  let ?s0 = "s\<lparr>sending := (sid, progress, status, ?cs) # sending s\<rparr>"
  have r: "run (sends sid progress status ?cs) ?s0
           = (case fanout ?cs ?u (shared ?s0) of
                Inl p \<Rightarrow> None
              | Inr h \<Rightarrow> Some (?s0\<lparr>shared := h, sending := (sid, progress, status, []) # sending s\<rparr>))"
    by (rule run_sends) simp
  show ?thesis
  proof (cases "fanout ?cs ?u (shared s)")
    case (Inl p)
    with r show ?thesis
      by (simp add: run_append continue_with_def sendProgress_def)
  next
    case (Inr h)
    with r show ?thesis
      by (simp add: run_append continue_with_def sendProgress_def split: sum.splits)
  qed
qed

text \<open>
  Claim C7 fails on the code.  The sends of \<open>sendProgress\<close> go to the channels of a
  snapshot taken before, with no lock held, and \<open>select\<close> with \<open>default\<close> does not skip a
  closed channel: the send panics.  Here a subscriber listens on channel 0, a call with
  progress 50 takes its snapshot, \<open>sendError\<close> for the session closes the channel, and the
  send of the first call panics.
\<close>

theorem send_on_stale_snapshot_panics:
  "(case run [Lookup ''s1'', Register ''s1'', Snapshot ''s1'' 50 ''half'', Fail ''s1'' ''failed'' 5]
          system0 of
      None \<Rightarrow> False
    | Some s \<Rightarrow>
        sending s = [(''s1'', 50, ''half'', [0])]
        \<and> trySend 0 \<lparr>Progress = 50, Status = ''half'', Error = False\<rparr> (shared s)
            = Inl SendOnClosedChannel
        \<and> fanout [0] \<lparr>Progress = 50, Status = ''half'', Error = False\<rparr> (shared s)
            = Inl SendOnClosedChannel
        \<and> exec s (Send ''s1'' 50 ''half'' [0]) = None)"
  by (simp add: system0_def hub0_def handleProgress_lookup_def handleProgress_register_def
      clients_of_def continue_with_def sendError_def trySend_def closeChan_def cacheFinal_def
      chanCap_def Let_def)

subsection \<open>The cache entry of a completed session\<close>

lemma sendProgress_cache:
  assumes "sendProgress h sid progress status now = Inr h'"
  shows "completedDownloads h' =
           (if progress = 100
            then (completedDownloads h)(sid \<mapsto>
                    \<lparr>FinalUpdate = \<lparr>Progress = progress, Status = status, Error = False\<rparr>,
                     CompletedAt = now\<rparr>)
            else completedDownloads h)"
  using assms
  by (auto simp: sendProgress_def sendProgress_close_def cacheFinal_def Let_def
      split: sum.splits if_splits dest!: fanout_frame closeAll_frame)

lemma sendProgress_close_cache:
  assumes "sendProgress_close h sid update now = Inr h'"
  shows "completedDownloads h' =
           (completedDownloads h)(sid \<mapsto> \<lparr>FinalUpdate = update, CompletedAt = now\<rparr>)"
  using assms
  by (auto simp: sendProgress_close_def cacheFinal_def split: sum.splits dest!: closeAll_frame)

lemma sendError_cache:
  assumes "sendError h sid errorMsg now = Inr h'"
  shows "completedDownloads h' =
           (completedDownloads h)(sid \<mapsto>
              \<lparr>FinalUpdate = \<lparr>Progress = - 1, Status = errorMsg, Error = True\<rparr>,
               CompletedAt = now\<rparr>)"
  using assms
  by (auto simp: sendError_def cacheFinal_def Let_def
      split: sum.splits dest!: fanout_frame closeAll_frame)

lemma handleProgress_cleanup_cache:
  "handleProgress_cleanup h sid ch = Inr h' \<Longrightarrow> completedDownloads h' = completedDownloads h"
  by (auto simp: handleProgress_cleanup_def Let_def split: if_splits sum.splits
      dest!: closeChan_frame)

lemma exec_retains:
  assumes "exec s ev = Some s'" and "retains sessionID t0 ev"
    and "completedDownloads (shared s) sessionID = Some \<lparr>FinalUpdate = u, CompletedAt = t0\<rparr>"
  shows "completedDownloads (shared s') sessionID = Some \<lparr>FinalUpdate = u, CompletedAt = t0\<rparr>"
proof (cases ev)
  case (Lookup sid)
  with assms show ?thesis by (auto split: if_splits option.splits)
next
  case (Register sid)
  with assms show ?thesis
    by (auto simp: handleProgress_register_def Let_def split: if_splits)
next
  case (Receive sid ch)
  with assms show ?thesis
    by (auto simp: receive_def split: if_splits list.splits)
next
  case (Cleanup sid ch)
  with assms show ?thesis
    by (auto simp: continue_with_def split: if_splits sum.splits
        dest!: handleProgress_cleanup_cache)
next
  case (Snapshot sid progress status)
  with assms show ?thesis by auto
next
  case (Send sid progress status clients)
  with assms show ?thesis
    by (auto simp: continue_with_def split: list.splits if_splits sum.splits dest!: trySend_frame)
next
  case (Close sid progress status now)
  with assms show ?thesis
    by (auto simp: continue_with_def split: if_splits sum.splits dest!: sendProgress_close_cache)
next
  case (Publish sid progress status now)
  with assms show ?thesis
    by (auto simp: continue_with_def split: sum.splits dest!: sendProgress_cache)
next
  case (Fail sid errorMsg now)
  with assms show ?thesis
    by (auto simp: continue_with_def split: sum.splits dest!: sendError_cache)
next
  case (Tick now)
  with assms show ?thesis by (auto simp: cleanupTick_def)
qed

lemma run_retains:
  assumes "run evs s = Some s'" and "list_all (retains sessionID t0) evs"
    and "completedDownloads (shared s) sessionID = Some \<lparr>FinalUpdate = u, CompletedAt = t0\<rparr>"
  shows "completedDownloads (shared s') sessionID = Some \<lparr>FinalUpdate = u, CompletedAt = t0\<rparr>"
  using assms
proof (induction evs arbitrary: s)
  case Nil
  then show ?case by simp
next
  case (Cons ev evs)
  then obtain s1 where e: "exec s ev = Some s1" and r: "run evs s1 = Some s'"
    by (auto split: option.splits)
  from exec_retains [OF e _ Cons.prems(3)] Cons.prems(2)
  have "completedDownloads (shared s1) sessionID = Some \<lparr>FinalUpdate = u, CompletedAt = t0\<rparr>"
    by simp
  with Cons.IH [OF r] Cons.prems(2) show ?case by simp
qed

lemma handleProgress_cached:
  assumes "sessionID \<noteq> []" and "completedDownloads h sessionID = Some completed"
  shows "handleProgress h sessionID = (Cached (FinalUpdate completed), h)"
  using assms by (simp add: handleProgress_def handleProgress_lookup_def)

text \<open>
  Claim C1, as amended.  Let \<open>sendProgress\<close> with progress 100, or \<open>sendError\<close>, have
  completed at time \<open>t0\<close> for a session with a non-empty id, and let any events follow of
  which none is a second final update for the session and none is a cleanup tick later
  than \<open>completedCacheTTL\<close> after \<open>t0\<close>.  Then \<open>handleProgress\<close> for the session answers
  with the cached final update and leaves the hub as it is: the lookup does not lead to a
  registration.
\<close>

theorem reconnect_after_completion:
  assumes "sessionID \<noteq> []"
    and "exec s fin = Some s1"
    and "fin = Publish sessionID 100 status t0
            \<and> u = \<lparr>Progress = 100, Status = status, Error = False\<rparr>
         \<or> fin = Close sessionID 100 status t0
            \<and> u = \<lparr>Progress = 100, Status = status, Error = False\<rparr>
         \<or> fin = Fail sessionID errorMsg t0
            \<and> u = \<lparr>Progress = - 1, Status = errorMsg, Error = True\<rparr>"
    and "run evs s1 = Some s2"
    and "list_all (retains sessionID t0) evs"
  shows "handleProgress (shared s2) sessionID = (Cached u, shared s2)
         \<and> exec s2 (Lookup sessionID) = Some s2"
proof -
  have "completedDownloads (shared s1) sessionID = Some \<lparr>FinalUpdate = u, CompletedAt = t0\<rparr>"
    using assms(2,3)
    by (auto simp: continue_with_def split: sum.splits if_splits
        dest!: sendProgress_cache sendProgress_close_cache sendError_cache)
  from run_retains [OF assms(4,5) this]
  have c: "completedDownloads (shared s2) sessionID = Some \<lparr>FinalUpdate = u, CompletedAt = t0\<rparr>" .
  from handleProgress_cached [OF assms(1) c] c assms(1) show ?thesis
    by (simp add: handleProgress_lookup_def)
qed

lemma sendProgress_hub0_done:
  "sendProgress hub0 ''s1'' 100 ''done'' 0 = Inr hub_done"
  by (simp add: sendProgress_def sendProgress_close_def clients_of_def hub0_def hub_done_def
      final_done_def)

theorem reconnect_after_completion_witness:
  "\<exists>s1 s2. exec system0 (Publish ''s1'' 100 ''done'' 0) = Some s1
      \<and> run [Tick 60000000000, Lookup ''s2'', Register ''s2'', Publish ''s2'' 50 ''half'' 61000000000,
              Tick 300000000000] s1 = Some s2
      \<and> list_all (retains ''s1'' 0)
           [Tick 60000000000, Lookup ''s2'', Register ''s2'', Publish ''s2'' 50 ''half'' 61000000000,
            Tick 300000000000]
      \<and> handleProgress (shared s2) ''s1'' = (Cached final_done, shared s2)
      \<and> exec s2 (Lookup ''s1'') = Some s2"
proof -
  let ?evs = "[Tick 60000000000, Lookup ''s2'', Register ''s2'', Publish ''s2'' 50 ''half'' 61000000000,
               Tick 300000000000]"
  have e: "exec system0 (Publish ''s1'' 100 ''done'' 0) = Some (system0\<lparr>shared := hub_done\<rparr>)"
    by (simp add: continue_with_def sendProgress_hub0_done system0_def)
  have "run ?evs (system0\<lparr>shared := hub_done\<rparr>) \<noteq> None"
    by (simp add: system0_def hub_done_def hub0_def cacheFinal_def cleanupTick_def
        handleProgress_lookup_def handleProgress_register_def clients_of_def continue_with_def
        sendProgress_def trySend_def chanCap_def Let_def)
  then obtain s2 where r: "run ?evs (system0\<lparr>shared := hub_done\<rparr>) = Some s2"
    by blast
  have k: "list_all (retains ''s1'' 0) ?evs"
    by (simp add: completedCacheTTL_def)
  have "''s1'' \<noteq> []" by simp
  from reconnect_after_completion [OF this e _ r k, of "''done''" final_done]
  have "handleProgress (shared s2) ''s1'' = (Cached final_done, shared s2)
         \<and> exec s2 (Lookup ''s1'') = Some s2"
    by (simp add: final_done_def)
  with e r k show ?thesis by blast
qed

text \<open>
  Claim C1 as stated sets no limit to "after".  A cleanup tick later than five minutes
  after the completion removes the entry, and \<open>handleProgress\<close> then registers a new
  channel for the completed session.
\<close>

theorem reconnect_after_eviction_counterexample:
  "sendProgress hub0 ''s1'' 100 ''done'' 0 = Inr hub_done
   \<and> completedDownloads (cleanupTick hub_done 300000000001) ''s1'' = None
   \<and> fst (handleProgress (cleanupTick hub_done 300000000001) ''s1'') = Subscribed 0
   \<and> clients_of (snd (handleProgress (cleanupTick hub_done 300000000001) ''s1'')) ''s1'' = [0]"
  using sendProgress_hub0_done
  by (simp add: hub_done_def hub0_def cacheFinal_def cleanupTick_def
      completedCacheTTL_def handleProgress_def handleProgress_lookup_def
      handleProgress_register_def clients_of_def Let_def)

text \<open>
  Claim C6 fails on the code.  \<open>handleProgress\<close> gives up the read lock after its lookup
  and takes the write lock to register; when the final update of the session is sent in
  between, the session ends up with a cache entry and an open channel in the registry.
  Nothing is ever sent to that channel, and nothing closes it.
\<close>

theorem subscribe_races_with_finalize:
  "(case run [Lookup ''s1'', Publish ''s1'' 100 ''done'' 0, Register ''s1''] system0 of
      None \<Rightarrow> False
    | Some s \<Rightarrow>
        clients_of (shared s) ''s1'' = [0]
        \<and> chans (shared s) 0 = \<lparr>queue = [], isClosed = False\<rparr>
        \<and> completedDownloads (shared s) ''s1'' = Some \<lparr>FinalUpdate = final_done, CompletedAt = 0\<rparr>)"
  by (simp add: system0_def hub0_def handleProgress_lookup_def continue_with_def sendProgress_def
      sendProgress_close_def cacheFinal_def handleProgress_register_def clients_of_def
      final_done_def Let_def)

subsection \<open>The registry stays well-formed\<close>

text \<open>
  \<open>live\<close> holds initially and is kept by every event.  So in every state reached from
  \<open>system0\<close> the channels registered for a session are open and listed once, and a call
  of \<open>sendError\<close>, or of \<open>sendProgress\<close> with nothing in between, that starts there does
  not panic.  A \<open>Send\<close> to a channel of an older snapshot can.
\<close>

lemma live_hub0: "live hub0"
  by (simp add: live_def hub0_def clients_of_def)

lemma live_cong:
  assumes "progressClients h' = progressClients h" and "nextChan h' = nextChan h"
    and "\<forall>c. isClosed (chans h' c) = isClosed (chans h c)"
  shows "live h' = live h"
  using assms by (simp add: live_def clients_of_def)

lemma live_open:
  "live h \<Longrightarrow> list_all (\<lambda>ch. \<not> isClosed (chans h ch)) (clients_of h sid) \<and> distinct (clients_of h sid)"
  by (auto simp: live_def list_all_iff)

lemma closeAll_closes:
  assumes "list_all (\<lambda>ch. \<not> isClosed (chans h ch)) clients" and "distinct clients"
  shows "closeAll clients h
           = Inr (h\<lparr>chans := (\<lambda>c. if c \<in> set clients then (chans h c)\<lparr>isClosed := True\<rparr>
                                 else chans h c)\<rparr>)"
  using assms
proof (induction clients arbitrary: h)
  case Nil
  then show ?case by simp
next
  case (Cons ch clients)
  let ?h1 = "h\<lparr>chans := (chans h)(ch := (chans h ch)\<lparr>isClosed := True\<rparr>)\<rparr>"
  have s: "closeChan ch h = Inr ?h1"
    using Cons.prems(1) by (simp add: closeChan_def)
  have o: "list_all (\<lambda>c. \<not> isClosed (chans ?h1 c)) clients"
    using Cons.prems by (auto simp: list_all_iff)
  have d: "distinct clients" using Cons.prems(2) by simp
  have "(\<lambda>c. if c \<in> set clients then (chans ?h1 c)\<lparr>isClosed := True\<rparr> else chans ?h1 c)
          = (\<lambda>c. if c \<in> set (ch # clients) then (chans h c)\<lparr>isClosed := True\<rparr> else chans h c)"
    using Cons.prems(2) by (auto simp: fun_eq_iff)
  with Cons.IH [OF o d] s show ?case by simp
qed

lemma live_finalized:
  assumes "live h"
  shows "live (cacheFinal
                (h\<lparr>chans := (\<lambda>c. if c \<in> set (clients_of h sid) then (chans h c)\<lparr>isClosed := True\<rparr>
                                   else chans h c)\<rparr>) sid update now)"
  using assms unfolding live_def cacheFinal_def clients_of_def list_all_iff
  by (auto split: option.splits) metis+

lemma fanout_live:
  assumes "live h"
  shows "\<exists>h1. fanout (clients_of h sid) update h = Inr h1 \<and> live h1
            \<and> progressClients h1 = progressClients h"
proof -
  let ?h1 = "h\<lparr>chans := delivered (clients_of h sid) update h\<rparr>"
  have "fanout (clients_of h sid) update h = Inr ?h1"
    using live_open [OF assms] by (intro fanout_delivers) simp_all
  moreover have "live ?h1"
    using assms by (subst live_cong [of _ h]) (simp_all add: delivered_def)
  ultimately show ?thesis by simp
qed

lemma closeAll_live:
  assumes "live h"
  shows "\<exists>h2. closeAll (clients_of h sid) h = Inr h2 \<and> live (cacheFinal h2 sid update now)"
  using closeAll_closes [of h "clients_of h sid"] live_open [OF assms, of sid]
    live_finalized [OF assms, of sid update now]
  by simp

lemma sendProgress_close_live:
  assumes "live h"
  shows "\<exists>h'. sendProgress_close h sid update now = Inr h' \<and> live h'"
  using closeAll_live [OF assms, of sid update now]
  by (auto simp: sendProgress_close_def)

lemma trySend_live:
  assumes "trySend ch update h = Inr h'" and "live h"
  shows "live h'"
  using trySend_frame [OF assms(1)] assms(2) live_cong [of h' h] by simp

lemma sendProgress_live:
  assumes "live h"
  shows "\<exists>h'. sendProgress h sid progress status now = Inr h' \<and> live h'"
proof -
  let ?u = "\<lparr>Progress = progress, Status = status, Error = False\<rparr>"
  from fanout_live [OF assms, of sid ?u] obtain h1
    where f: "fanout (clients_of h sid) ?u h = Inr h1" and l1: "live h1"
    by blast
  from closeAll_live [OF l1, of sid ?u now] obtain h2
    where c: "closeAll (clients_of h1 sid) h1 = Inr h2" and l2: "live (cacheFinal h2 sid ?u now)"
    by blast
  show ?thesis
    unfolding sendProgress_def sendProgress_close_def Let_def
    using f l1 c l2 by auto
qed

lemma sendError_live:
  assumes "live h"
  shows "\<exists>h'. sendError h sid errorMsg now = Inr h' \<and> live h'"
proof -
  let ?u = "\<lparr>Progress = - 1, Status = errorMsg, Error = True\<rparr>"
  from fanout_live [OF assms, of sid ?u] obtain h1
    where f: "fanout (clients_of h sid) ?u h = Inr h1" and l1: "live h1"
      and p: "progressClients h1 = progressClients h"
    by blast
  have same: "clients_of h1 sid = clients_of h sid"
    using p by (simp add: clients_of_def)
  from closeAll_live [OF l1, of sid ?u now] obtain h2
    where c: "closeAll (clients_of h sid) h1 = Inr h2" and l2: "live (cacheFinal h2 sid ?u now)"
    unfolding same by blast
  show ?thesis
    unfolding sendError_def Let_def
    using f c l2 by simp
qed

lemma register_live:
  assumes "live h"
  shows "live (snd (handleProgress_register h sid))"
  using assms unfolding live_def handleProgress_register_def clients_of_def list_all_iff Let_def
  by (auto split: option.splits) (metis less_irrefl less_SucI)+

lemma cleanup_live:
  assumes "live h" and "isClosed (chans h ch)"
  shows "handleProgress_cleanup h sid ch = Inr h"
  using assms live_open [OF assms(1), of sid]
  by (auto simp: handleProgress_cleanup_def list_all_iff)

lemma exec_live:
  assumes "exec s ev = Some s'" and "live (shared s)"
  shows "live (shared s')"
proof (cases ev)
  case (Lookup sid)
  with assms show ?thesis by (auto split: if_splits option.splits)
next
  case (Register sid)
  with assms register_live [OF assms(2), of sid] show ?thesis
    by (auto split: if_splits prod.splits)
next
  case (Receive sid ch)
  with assms show ?thesis
    by (auto simp: receive_def split: if_splits list.splits
        intro!: live_cong [THEN iffD2, of _ "shared s"])
next
  case (Cleanup sid ch)
  with assms show ?thesis
    by (auto simp: continue_with_def cleanup_live split: if_splits)
next
  case (Snapshot sid progress status)
  with assms show ?thesis by auto
next
  case (Send sid progress status clients)
  with assms show ?thesis
    by (auto simp: continue_with_def split: list.splits if_splits sum.splits dest: trySend_live)
next
  case (Close sid progress status now)
  with assms
    sendProgress_close_live [OF assms(2), of sid "\<lparr>Progress = progress, Status = status, Error = False\<rparr>" now]
  show ?thesis
    by (auto simp: continue_with_def split: if_splits)
next
  case (Publish sid progress status now)
  with assms sendProgress_live [OF assms(2), of sid progress status now] show ?thesis
    by (auto simp: continue_with_def)
next
  case (Fail sid errorMsg now)
  with assms sendError_live [OF assms(2), of sid errorMsg now] show ?thesis
    by (auto simp: continue_with_def)
next
  case (Tick now)
  with assms show ?thesis
    by (auto simp: cleanupTick_def intro!: live_cong [THEN iffD2, of _ "shared s"])
qed

lemma run_live:
  "run evs s = Some s' \<Longrightarrow> live (shared s) \<Longrightarrow> live (shared s')"
proof (induction evs arbitrary: s)
  case Nil
  then show ?case by simp
next
  case (Cons ev evs)
  then obtain s1 where e: "exec s ev = Some s1" and r: "run evs s1 = Some s'"
    by (auto split: option.splits)
  from exec_live [OF e Cons.prems(2)] have "live (shared s1)" .
  with Cons.IH [OF r] show ?case .
qed

lemma reachable_subscribers_live:
  assumes "run evs system0 = Some s"
  shows "list_all (\<lambda>ch. \<not> isClosed (chans (shared s) ch)) (clients_of (shared s) sid)
         \<and> distinct (clients_of (shared s) sid)"
  using run_live [OF assms] live_hub0 live_open by (simp add: system0_def)

lemma reachable_never_panics:
  assumes "run evs system0 = Some s"
  shows "exec s (Publish sid progress status now) \<noteq> None \<and> exec s (Fail sid errorMsg now) \<noteq> None"
proof -
  have l: "live (shared s)"
    using run_live [OF assms] live_hub0 by (simp add: system0_def)
  from sendProgress_live [OF l, of sid progress status now] sendError_live [OF l, of sid errorMsg now]
  show ?thesis by (auto simp: continue_with_def)
qed

subsection \<open>Live channels or a cache entry\<close>

text \<open>
  \<open>handleProgress\<close> run without interruption keeps \<open>no_both\<close>, and so does every event
  except \<open>Register\<close>, the registration that comes after a lookup made earlier.
\<close>

lemma clients_of_register:
  "clients_of (snd (handleProgress_register h sid)) x
     = (if x = sid then clients_of h sid @ [nextChan h] else clients_of h x)"
  by (simp add: handleProgress_register_def clients_of_def Let_def)

lemma handleProgress_no_both:
  assumes "no_both h"
  shows "no_both (snd (handleProgress h sid))"
proof (cases "sid = [] \<or> completedDownloads h sid \<noteq> None")
  case True
  with assms show ?thesis
    by (auto simp: handleProgress_def handleProgress_lookup_def)
next
  case False
  then have "snd (handleProgress h sid) = snd (handleProgress_register h sid)"
    by (auto simp: handleProgress_def handleProgress_lookup_def split: prod.splits)
  moreover have "completedDownloads (snd (handleProgress_register h sid)) = completedDownloads h"
    by (simp add: handleProgress_register_def Let_def)
  ultimately have h': "completedDownloads (snd (handleProgress h sid)) = completedDownloads h"
    and c': "\<And>x. clients_of (snd (handleProgress h sid)) x
               = (if x = sid then clients_of h sid @ [nextChan h] else clients_of h x)"
    by (simp_all add: clients_of_register)
  show ?thesis
    unfolding no_both_def
  proof
    fix x
    from assms have "clients_of h x = [] \<or> completedDownloads h x = None"
      by (simp add: no_both_def)
    with False show "clients_of (snd (handleProgress h sid)) x = []
        \<or> completedDownloads (snd (handleProgress h sid)) x = None"
      unfolding h' c' by (cases "x = sid") simp_all
  qed
qed

lemma no_both_cong:
  assumes "no_both h" and "completedDownloads h' = completedDownloads h"
    and "progressClients h' = progressClients h"
  shows "no_both h'"
proof -
  have "clients_of h' = clients_of h"
    using assms(3) by (simp add: clients_of_def fun_eq_iff)
  with assms(1,2) show ?thesis by (simp add: no_both_def)
qed

lemma no_both_cacheFinal:
  assumes "no_both h"
  shows "no_both (cacheFinal h sid update now)"
  unfolding no_both_def
proof
  fix x
  from assms have "clients_of h x = [] \<or> completedDownloads h x = None"
    by (simp add: no_both_def)
  then show "clients_of (cacheFinal h sid update now) x = []
      \<or> completedDownloads (cacheFinal h sid update now) x = None"
    by (cases "x = sid") (simp_all add: cacheFinal_def clients_of_def)
qed

lemma sendProgress_close_no_both:
  assumes "sendProgress_close h sid update now = Inr h'" and "no_both h"
  shows "no_both h'"
proof -
  from assms(1) obtain h2 where c: "closeAll (clients_of h sid) h = Inr h2"
    and h': "h' = cacheFinal h2 sid update now"
    by (auto simp: sendProgress_close_def split: sum.splits)
  have "no_both h2"
    using assms(2) closeAll_frame [OF c] by (simp add: no_both_cong)
  then show ?thesis unfolding h' by (rule no_both_cacheFinal)
qed

lemma trySend_no_both:
  assumes "trySend ch update h = Inr h'" and "no_both h"
  shows "no_both h'"
  using assms(2) trySend_frame [OF assms(1)] by (simp add: no_both_cong)

lemma sendProgress_no_both:
  assumes "sendProgress h sid progress status now = Inr h'" and "no_both h"
  shows "no_both h'"
proof -
  from assms(1) obtain h1
    where f: "fanout (clients_of h sid) \<lparr>Progress = progress, Status = status, Error = False\<rparr> h = Inr h1"
      and r: "(if progress = 100
               then sendProgress_close h1 sid \<lparr>Progress = progress, Status = status, Error = False\<rparr> now
               else Inr h1) = Inr h'"
    by (auto simp: sendProgress_def Let_def split: sum.splits)
  have n1: "no_both h1"
    using assms(2) fanout_frame [OF f] by (simp add: no_both_cong)
  show ?thesis
  proof (cases "progress = 100")
    case False
    with r n1 show ?thesis by simp
  next
    case True
    with r obtain h2 where c: "closeAll (clients_of h1 sid) h1 = Inr h2"
      and h': "h' = cacheFinal h2 sid \<lparr>Progress = progress, Status = status, Error = False\<rparr> now"
      by (auto simp: sendProgress_close_def split: sum.splits)
    have "no_both h2"
      using n1 closeAll_frame [OF c] by (simp add: no_both_cong)
    then show ?thesis unfolding h' by (rule no_both_cacheFinal)
  qed
qed

lemma sendError_no_both:
  assumes "sendError h sid errorMsg now = Inr h'" and "no_both h"
  shows "no_both h'"
proof -
  from assms(1) obtain h1 h2
    where f: "fanout (clients_of h sid) \<lparr>Progress = - 1, Status = errorMsg, Error = True\<rparr> h = Inr h1"
      and c: "closeAll (clients_of h sid) h1 = Inr h2"
      and h': "h' = cacheFinal h2 sid \<lparr>Progress = - 1, Status = errorMsg, Error = True\<rparr> now"
    by (auto simp: sendError_def Let_def split: sum.splits)
  have "no_both h1"
    using assms(2) fanout_frame [OF f] by (simp add: no_both_cong)
  then have "no_both h2"
    using closeAll_frame [OF c] by (simp add: no_both_cong)
  then show ?thesis unfolding h' by (rule no_both_cacheFinal)
qed

lemma cleanup_no_both:
  assumes "handleProgress_cleanup h sid ch = Inr h'" and "no_both h"
  shows "no_both h'"
proof (cases "ch \<in> set (clients_of h sid)")
  case False
  with assms show ?thesis by (simp add: handleProgress_cleanup_def)
next
  case True
  let ?rest = "remove1 ch (clients_of h sid)"
  let ?h1 = "h\<lparr>progressClients := (progressClients h)(sid \<mapsto> ?rest)\<rparr>"
  from assms(1) True obtain h2 where c: "closeChan ch ?h1 = Inr h2"
    and h': "h' = (if ?rest = [] then h2\<lparr>progressClients := (progressClients h2)(sid := None)\<rparr> else h2)"
    by (auto simp: handleProgress_cleanup_def Let_def split: sum.splits if_splits)
  from assms(2) have "clients_of h sid = [] \<or> completedDownloads h sid = None"
    by (simp add: no_both_def)
  with True have cache: "completedDownloads h sid = None"
    by auto
  from closeChan_frame [OF c] have fr: "completedDownloads h2 = completedDownloads h"
    "progressClients h2 = (progressClients h)(sid \<mapsto> ?rest)"
    by simp_all
  show ?thesis
    unfolding no_both_def
  proof
    fix x
    from assms(2) have "clients_of h x = [] \<or> completedDownloads h x = None"
      by (simp add: no_both_def)
    with cache fr show "clients_of h' x = [] \<or> completedDownloads h' x = None"
      unfolding h' by (cases "x = sid") (simp_all add: clients_of_def)
  qed
qed

lemma exec_no_both:
  assumes "exec s ev = Some s'" and "no_both (shared s)" and "\<forall>sid. ev \<noteq> Register sid"
  shows "no_both (shared s')"
proof (cases ev)
  case (Lookup sid)
  with assms show ?thesis by (auto split: if_splits option.splits)
next
  case (Register sid)
  with assms show ?thesis by simp
next
  case (Receive sid ch)
  with assms(1) have "completedDownloads (shared s') = completedDownloads (shared s)"
    "progressClients (shared s') = progressClients (shared s)"
    by (auto simp: receive_def split: if_splits list.splits)
  with assms(2) show ?thesis by (rule no_both_cong)
next
  case (Cleanup sid ch)
  with assms(1) obtain h' where "handleProgress_cleanup (shared s) sid ch = Inr h'"
    and "shared s' = h'"
    by (auto simp: continue_with_def split: if_splits sum.splits)
  with assms(2) show ?thesis by (simp add: cleanup_no_both)
next
  case (Snapshot sid progress status)
  with assms show ?thesis by auto
next
  case (Send sid progress status clients)
  with assms(1) obtain ch h' where
    "trySend ch \<lparr>Progress = progress, Status = status, Error = False\<rparr> (shared s) = Inr h'"
    and "shared s' = h'"
    by (auto simp: continue_with_def split: list.splits if_splits sum.splits)
  with assms(2) show ?thesis by (simp add: trySend_no_both)
next
  case (Close sid progress status now)
  show ?thesis
  proof (cases "progress = 100")
    case True
    with Close assms(1) obtain h' where
      "sendProgress_close (shared s) sid \<lparr>Progress = progress, Status = status, Error = False\<rparr> now
         = Inr h'"
      and "shared s' = h'"
      by (auto simp: continue_with_def split: if_splits sum.splits)
    with assms(2) show ?thesis by (simp add: sendProgress_close_no_both)
  next
    case False
    with Close assms show ?thesis
      by (auto simp: continue_with_def split: if_splits)
  qed
next
  case (Publish sid progress status now)
  with assms(1) obtain h' where "sendProgress (shared s) sid progress status now = Inr h'"
    and "shared s' = h'"
    by (auto simp: continue_with_def split: sum.splits)
  with assms(2) show ?thesis by (simp add: sendProgress_no_both)
next
  case (Fail sid errorMsg now)
  with assms(1) obtain h' where "sendError (shared s) sid errorMsg now = Inr h'"
    and "shared s' = h'"
    by (auto simp: continue_with_def split: sum.splits)
  with assms(2) show ?thesis by (simp add: sendError_no_both)
next
  case (Tick now)
  show ?thesis
    unfolding no_both_def
  proof
    fix x
    from assms(2) have "clients_of (shared s) x = [] \<or> completedDownloads (shared s) x = None"
      by (simp add: no_both_def)
    with assms(1) Tick show "clients_of (shared s') x = [] \<or> completedDownloads (shared s') x = None"
      by (auto simp: cleanupTick_def clients_of_def)
  qed
qed

end
